theory Spec2Isabelle
  imports Complex_Main "HOL-Library.Product_Lexorder" "HOL-Library.Multiset" "HOL-Library.Word"
begin

unbundle bit_operations_syntax

section \<open>Data model of \<^verbatim>\<open>StlReader\<close>\<close>

text \<open>
  The embedding follows \<^verbatim>\<open>src/stl_reader.h\<close> and \<^verbatim>\<open>stl_reader.cpp\<close>.

  \<^item> \<^verbatim>\<open>struct Vec3 { float x, y, z; }\<close> is the record \<open>'f Vec3\<close> with fields \<open>vx\<close>,
    \<open>vy\<close>, \<open>vz\<close> (the one-letter names would capture the variables of every
    statement). The coordinate type is a parameter: the vertex merge only compares
    coordinates, and is run on real numbers and on IEEE bit patterns alike.
  \<^item> \<^verbatim>\<open>struct Triangle\<close> is the record \<open>'f Triangle\<close>; \<^verbatim>\<open>struct IndexedTri\<close> is the
    record \<open>IndexedTri\<close> with fields \<open>i0\<close>, \<open>i1\<close>, \<open>i2\<close> (its C++ fields are named
    \<^verbatim>\<open>v0, v1, v2\<close> like those of \<^verbatim>\<open>Triangle\<close>); \<^verbatim>\<open>struct DirectedEdge\<close> of
    \<^verbatim>\<open>addCaps\<close> is the record \<open>DirectedEdge\<close> with fields \<open>dfrom\<close>, \<open>dto\<close>, \<open>triIdx\<close>.
  \<^item> The private members of the class are the record \<open>'f StlReader\<close>, each field named
    as the member without its trailing underscore (\<^verbatim>\<open>header_\<close> is left out: only the
    file reader and writer touch it).
  \<^item> \<^verbatim>\<open>size_t\<close> is \<open>nat\<close>: the code only counts and indexes containers held in
    memory and never subtracts below zero. The \<^verbatim>\<open>int\<close> counters of the reports and
    of the hit count are \<open>int\<close>; they count elements of such containers.
  \<^item> Wherever the code computes with \<^verbatim>\<open>float\<close> or \<^verbatim>\<open>double\<close> the model computes
    with \<open>real\<close>: arithmetic is exact, a literal such as \<^verbatim>\<open>1e-10f\<close> is the decimal
    number it spells, and there is no NaN, infinity or signed zero. The code divides only
    behind a guard that keeps the divisor away from zero.
  \<^item> \<^verbatim>\<open>indexedTriangles_.at(i)\<close> throws when \<open>i\<close> is out of range: \<open>getTriangle\<close>
    returns \<open>None\<close> there, and so does every function that calls it.
    \<^verbatim>\<open>vertices_[i]\<close> is an unchecked read; the theorems that depend on such reads
    assume \<open>wf_mesh\<close>, the invariant that every index of every triangle is inside the
    vertex table, which \<^verbatim>\<open>removeDuplicateVertices\<close> establishes.
  \<^item> A function that writes a report to a \<^verbatim>\<open>std::ostream\<close> returns the lines it
    wrote, one constructor per line, the numbers unformatted.
\<close>

record 'f Vec3 =
  vx :: 'f
  vy :: 'f
  vz :: 'f

record 'f Triangle =
  normal :: "'f Vec3"
  v0 :: "'f Vec3"
  v1 :: "'f Vec3"
  v2 :: "'f Vec3"

record IndexedTri =
  i0 :: nat
  i1 :: nat
  i2 :: nat

record 'f StlReader =
  triangles :: "'f Triangle list"
  vertices :: "'f Vec3 list"
  indexedTriangles :: "IndexedTri list"
  originalFacetNormals :: "'f Vec3 list"

definition wf_mesh :: "'f StlReader \<Rightarrow> bool" where
  "wf_mesh m = list_all (\<lambda>t. i0 t < length (vertices m) \<and> i1 t < length (vertices m)
                               \<and> i2 t < length (vertices m)) (indexedTriangles m)"

text \<open>\<^verbatim>\<open>edgeKey(a, b) = {min(a, b), max(a, b)}\<close>\<close>

definition edgeKey :: "nat \<Rightarrow> nat \<Rightarrow> nat \<times> nat" where
  "edgeKey a b = (min a b, max a b)"

subsection \<open>Ordered maps\<close>

text \<open>
  A \<^verbatim>\<open>std::map<K, V>\<close> over integer keys, whose entries are visited in key order, is an
  association list kept sorted by key. \<open>omap_update k f d\<close> is \<^verbatim>\<open>m[k] = f(m[k])\<close>, where
  \<^verbatim>\<open>m[k]\<close> creates the value-initialised entry \<open>d\<close> when the key is absent;
  \<open>omap_get k d\<close> reads \<^verbatim>\<open>m[k]\<close>.
\<close>

fun omap_update :: "'k::linorder \<Rightarrow> ('v \<Rightarrow> 'v) \<Rightarrow> 'v \<Rightarrow> ('k \<times> 'v) list \<Rightarrow> ('k \<times> 'v) list" where
  "omap_update k f d [] = [(k, f d)]"
| "omap_update k f d ((k', v) # m) =
     (if k = k' then (k', f v) # m
      else if k < k' then (k, f d) # (k', v) # m
      else (k', v) # omap_update k f d m)"

fun omap_get :: "'k \<Rightarrow> 'v \<Rightarrow> ('k \<times> 'v) list \<Rightarrow> 'v" where
  "omap_get k d [] = d"
| "omap_get k d ((k', v) # m) = (if k = k' then v else omap_get k d m)"

section \<open>Vertex merge\<close>

text \<open>
  \<^verbatim>\<open>Vec3::operator<\<close>, over the two comparisons of coordinates it uses:
  \<open>ne\<close> is \<^verbatim>\<open>!=\<close> and \<open>lt\<close> is \<^verbatim>\<open><\<close>.
\<close>

definition Vec3_less :: "('f \<Rightarrow> 'f \<Rightarrow> bool) \<Rightarrow> ('f \<Rightarrow> 'f \<Rightarrow> bool) \<Rightarrow> 'f Vec3 \<Rightarrow> 'f Vec3 \<Rightarrow> bool" where
  "Vec3_less ne lt a b =
     (if ne (vx a) (vx b) then lt (vx a) (vx b)
      else if ne (vy a) (vy b) then lt (vy a) (vy b)
      else lt (vz a) (vz b))"

text \<open>On real coordinates.\<close>

definition vless :: "real Vec3 \<Rightarrow> real Vec3 \<Rightarrow> bool" where
  "vless = Vec3_less (\<lambda>a b. a \<noteq> b) (\<lambda>a b. a < b)"

text \<open>
  A \<^verbatim>\<open>std::map<Vec3, size_t>\<close> is the list of its entries in the order they were
  inserted. \<^verbatim>\<open>find(v)\<close> returns the entry whose key is equivalent to \<open>v\<close> under the
  comparison of the map: neither is less than the other. The code only inserts a key after
  \<^verbatim>\<open>find\<close> has missed it, so no two entries are equivalent and the first match is the
  only one.
\<close>

fun map_find :: "('k \<Rightarrow> 'k \<Rightarrow> bool) \<Rightarrow> 'k \<Rightarrow> ('k \<times> 'v) list \<Rightarrow> 'v option" where
  "map_find vlt k [] = None"
| "map_find vlt k ((k', v) # m) =
     (if \<not> vlt k k' \<and> \<not> vlt k' k then Some v else map_find vlt k m)"

text \<open>
  The lambda \<^verbatim>\<open>getIdx\<close> of \<^verbatim>\<open>cleanMesh\<close>, which is also the lambda \<^verbatim>\<open>id\<close> of
  \<^verbatim>\<open>removeDuplicateVertices\<close>: the state is the map and the vertex table.
\<close>

type_synonym 'f vtable = "('f Vec3 \<times> nat) list \<times> 'f Vec3 list"

definition getIdx :: "('f Vec3 \<Rightarrow> 'f Vec3 \<Rightarrow> bool) \<Rightarrow> 'f Vec3 \<Rightarrow> 'f vtable \<Rightarrow> nat \<times> 'f vtable" where
  "getIdx vlt v st =
     (case st of (vToIdx, verts) \<Rightarrow>
        (case map_find vlt v vToIdx of
           Some i \<Rightarrow> (i, st)
         | None \<Rightarrow> (length verts, (vToIdx @ [(v, length verts)], verts @ [v]))))"

text \<open>The three calls made for one triangle, left to right.\<close>

definition getIdx3 :: "('f Vec3 \<Rightarrow> 'f Vec3 \<Rightarrow> bool) \<Rightarrow> 'f Triangle \<Rightarrow> 'f vtable \<Rightarrow> (nat \<times> nat \<times> nat) \<times> 'f vtable" where
  "getIdx3 vlt t st =
     (let (i, st1) = getIdx vlt (v0 t) st;
          (j, st2) = getIdx vlt (v1 t) st1;
          (k, st3) = getIdx vlt (v2 t) st2
      in ((i, j, k), st3))"

text \<open>The loop of \<^verbatim>\<open>removeDuplicateVertices\<close> over \<^verbatim>\<open>triangles_\<close>.\<close>

fun indexAll :: "('f Vec3 \<Rightarrow> 'f Vec3 \<Rightarrow> bool) \<Rightarrow> 'f Triangle list \<Rightarrow> 'f vtable \<Rightarrow> IndexedTri list \<Rightarrow> 'f vtable \<times> IndexedTri list" where
  "indexAll vlt [] st its = (st, its)"
| "indexAll vlt (t # ts) st its =
     (case getIdx3 vlt t st of
        ((i, j, k), st') \<Rightarrow> indexAll vlt ts st' (its @ [\<lparr>i0 = i, i1 = j, i2 = k\<rparr>]))"

definition removeDuplicateVertices :: "('f Vec3 \<Rightarrow> 'f Vec3 \<Rightarrow> bool) \<Rightarrow> 'f StlReader \<Rightarrow> 'f StlReader" where
  "removeDuplicateVertices vlt r =
     (case indexAll vlt (triangles r) ([], []) [] of
        ((idx, verts), its) \<Rightarrow>
          \<lparr> triangles = [], vertices = verts, indexedTriangles = its,
            originalFacetNormals = map normal (triangles r) \<rparr>)"

subsection \<open>Comparison of \<^verbatim>\<open>float\<close> values on their bit patterns\<close>







section \<open>Geometry of an indexed mesh\<close>

text \<open>
  The cross product of \<open>b - a\<close> and \<open>c - a\<close>, which \<^verbatim>\<open>getTriangle\<close>,
  \<^verbatim>\<open>checkRightHandWinding\<close>, \<^verbatim>\<open>capOneLoop\<close>, \<^verbatim>\<open>cleanMesh\<close> and \<^verbatim>\<open>checkWatertight\<close>
  each spell out coordinate by coordinate.
\<close>

definition cross3 :: "real Vec3 \<Rightarrow> real Vec3 \<Rightarrow> real Vec3 \<Rightarrow> real Vec3" where
  "cross3 a b c =
     (let ex = vx b - vx a; ey = vy b - vy a; ez = vz b - vz a;
          fx = vx c - vx a; fy = vy c - vy a; fz = vz c - vz a
      in \<lparr> vx = ey * fz - ez * fy, vy = ez * fx - ex * fz, vz = ex * fy - ey * fx \<rparr>)"

text \<open>\<^verbatim>\<open>nx * nx + ny * ny + nz * nz\<close>, and its square root \<^verbatim>\<open>len\<close>.\<close>

definition norm2 :: "real Vec3 \<Rightarrow> real" where
  "norm2 n = vx n * vx n + vy n * vy n + vz n * vz n"

definition vlen :: "real Vec3 \<Rightarrow> real" where
  "vlen n = sqrt (norm2 n)"

definition vscale :: "real Vec3 \<Rightarrow> real \<Rightarrow> real Vec3" where
  "vscale n len = \<lparr> vx = vx n / len, vy = vy n / len, vz = vz n / len \<rparr>"

definition vneg :: "real Vec3 \<Rightarrow> real Vec3" where
  "vneg n = \<lparr> vx = - vx n, vy = - vy n, vz = - vz n \<rparr>"

definition vdot :: "real Vec3 \<Rightarrow> real Vec3 \<Rightarrow> real" where
  "vdot a b = vx a * vx b + vy a * vy b + vz a * vz b"

text \<open>
  \<^verbatim>\<open>getTriangle(i)\<close>: the three positions and the normal of the right-hand rule,
  normalised when its length is positive. \<open>None\<close> is the exception of \<^verbatim>\<open>at(i)\<close>.
\<close>

definition getTriangle :: "real StlReader \<Rightarrow> nat \<Rightarrow> real Triangle option" where
  "getTriangle m i =
     (if i < length (indexedTriangles m) then
        let idt = indexedTriangles m ! i;
            a = vertices m ! i0 idt; b = vertices m ! i1 idt; c = vertices m ! i2 idt;
            n = cross3 a b c;
            len = vlen n
        in Some \<lparr> normal = (if len > 0 then vscale n len else n), v0 = a, v1 = b, v2 = c \<rparr>
      else None)"

text \<open>\<^verbatim>\<open>volume()\<close>: the signed tetrahedra from the origin, summed in triangle order.\<close>

fun volumeSum :: "real Vec3 list \<Rightarrow> IndexedTri list \<Rightarrow> real \<Rightarrow> real" where
  "volumeSum vs [] s = s"
| "volumeSum vs (t # ts) s =
     (let a = vs ! i0 t; b = vs ! i1 t; c = vs ! i2 t
      in volumeSum vs ts
           (s + (vx a * (vy b * vz c - vz b * vy c) + vy a * (vz b * vx c - vx b * vz c)
                 + vz a * (vx b * vy c - vy b * vx c)) / 6))"

definition volume :: "real StlReader \<Rightarrow> real" where
  "volume m = (let s = volumeSum (vertices m) (indexedTriangles m) 0 in if s < 0 then - s else s)"

section \<open>\<^verbatim>\<open>rayIntersect\<close>\<close>

text \<open>
  The body of \<^verbatim>\<open>rayIntersect\<close> after it has fetched the triangle: \<open>Some t\<close> is
  \<^verbatim>\<open>return true\<close> with \<^verbatim>\<open>t_out = t\<close>, \<open>None\<close> is \<^verbatim>\<open>return false\<close>.
\<close>

definition rayTriangle :: "real Triangle \<Rightarrow> real Vec3 \<Rightarrow> real Vec3 \<Rightarrow> real option" where
  "rayTriangle t ro rd =
     (let eps = 1 / 10 ^ 6;
          e1x = vx (v1 t) - vx (v0 t); e1y = vy (v1 t) - vy (v0 t); e1z = vz (v1 t) - vz (v0 t);
          e2x = vx (v2 t) - vx (v0 t); e2y = vy (v2 t) - vy (v0 t); e2z = vz (v2 t) - vz (v0 t);
          hx = vy rd * e2z - vz rd * e2y; hy = vz rd * e2x - vx rd * e2z;
          hz = vx rd * e2y - vy rd * e2x;
          a = e1x * hx + e1y * hy + e1z * hz
      in if a > - eps \<and> a < eps then None
         else
           let f = 1 / a;
               sx = vx ro - vx (v0 t); sy = vy ro - vy (v0 t); sz = vz ro - vz (v0 t);
               u = f * (sx * hx + sy * hy + sz * hz)
           in if u < 0 \<or> u > 1 then None
              else
                let qx = sy * e1z - sz * e1y; qy = sz * e1x - sx * e1z; qz = sx * e1y - sy * e1x;
                    v = f * (vx rd * qx + vy rd * qy + vz rd * qz)
                in if v < 0 \<or> u + v > 1 then None
                   else
                     let tt = f * (e2x * qx + e2y * qy + e2z * qz)
                     in if tt \<le> eps then None else Some tt)"

text \<open>The outer \<open>option\<close> is the exception of \<^verbatim>\<open>getTriangle\<close>, the inner one the hit.\<close>

definition rayIntersect :: "real StlReader \<Rightarrow> nat \<Rightarrow> real Vec3 \<Rightarrow> real Vec3 \<Rightarrow> real option option" where
  "rayIntersect m triIndex ro rd =
     (case getTriangle m triIndex of None \<Rightarrow> None | Some t \<Rightarrow> Some (rayTriangle t ro rd))"

section \<open>The interior classifier of \<^verbatim>\<open>computeFluidMesh\<close>\<close>

text \<open>
  The loop over \<open>k\<close> that fills \<^verbatim>\<open>hits\<close> for facet \<open>i\<close>: the list of \<open>k\<close> still to
  visit is the argument.
\<close>

fun collectHits :: "real StlReader \<Rightarrow> nat \<Rightarrow> real Vec3 \<Rightarrow> real Vec3 \<Rightarrow> real \<Rightarrow> nat list \<Rightarrow> (real \<times> nat) list \<Rightarrow> (real \<times> nat) list option" where
  "collectHits m i rayOrig rayDir tMin [] hits = Some hits"
| "collectHits m i rayOrig rayDir tMin (k # ks) hits =
     (if k = i then collectHits m i rayOrig rayDir tMin ks hits
      else
        case rayIntersect m k rayOrig rayDir of
          None \<Rightarrow> None
        | Some None \<Rightarrow> collectHits m i rayOrig rayDir tMin ks hits
        | Some (Some t) \<Rightarrow>
            if t > tMin then collectHits m i rayOrig rayDir tMin ks (hits @ [(t, k)])
            else collectHits m i rayOrig rayDir tMin ks hits)"

text \<open>
  The loop over the sorted hits:
  \<^verbatim>\<open>if (h.first - lastT > tEps) { ++distinctHits; lastT = h.first; }\<close>
\<close>

fun countDistinctHits :: "real \<Rightarrow> (real \<times> nat) list \<Rightarrow> int \<Rightarrow> real \<Rightarrow> int" where
  "countDistinctHits tEps [] distinctHits lastT = distinctHits"
| "countDistinctHits tEps (h # hs) distinctHits lastT =
     (if fst h - lastT > tEps then countDistinctHits tEps hs (distinctHits + 1) (fst h)
      else countDistinctHits tEps hs distinctHits lastT)"

text \<open>
  One iteration of the loop over \<open>i\<close>: whether \<open>i\<close> is pushed to
  \<^verbatim>\<open>evenHitTriangles\<close>. \<^verbatim>\<open>std::sort\<close> on pairs is the lexicographic order.
\<close>

definition isEvenHit :: "real StlReader \<Rightarrow> real \<Rightarrow> real \<Rightarrow> real \<Rightarrow> nat \<Rightarrow> bool option" where
  "isEvenHit m originOffset tMin tEps i =
     (case getTriangle m i of
        None \<Rightarrow> None
      | Some tri \<Rightarrow>
          let cx = (vx (v0 tri) + vx (v1 tri) + vx (v2 tri)) / 3;
              cy = (vy (v0 tri) + vy (v1 tri) + vy (v2 tri)) / 3;
              cz = (vz (v0 tri) + vz (v1 tri) + vz (v2 tri)) / 3;
              rayOrig = \<lparr> vx = cx + originOffset * vx (normal tri),
                          vy = cy + originOffset * vy (normal tri),
                          vz = cz + originOffset * vz (normal tri) \<rparr>;
              rayDir = \<lparr> vx = vx (normal tri), vy = vy (normal tri), vz = vz (normal tri) \<rparr>
          in case collectHits m i rayOrig rayDir tMin [0..<length (indexedTriangles m)] [] of
               None \<Rightarrow> None
             | Some hits \<Rightarrow>
                 let distinctHits = countDistinctHits tEps (sort hits) 0 (- (10 ^ 30))
                 in Some (distinctHits > 0 \<and> distinctHits AND 1 = 0))"

fun evenHitLoop :: "real StlReader \<Rightarrow> real \<Rightarrow> real \<Rightarrow> real \<Rightarrow> nat list \<Rightarrow> nat list \<Rightarrow> nat list option" where
  "evenHitLoop m originOffset tMin tEps [] evenHitTriangles = Some evenHitTriangles"
| "evenHitLoop m originOffset tMin tEps (i # rest) evenHitTriangles =
     (case isEvenHit m originOffset tMin tEps i of
        None \<Rightarrow> None
      | Some keep \<Rightarrow>
          evenHitLoop m originOffset tMin tEps rest
            (if keep then evenHitTriangles @ [i] else evenHitTriangles))"

definition evenHitTriangles :: "real StlReader \<Rightarrow> real \<Rightarrow> real \<Rightarrow> real \<Rightarrow> nat list option" where
  "evenHitTriangles m originOffset tMin tEps =
     evenHitLoop m originOffset tMin tEps [0..<length (indexedTriangles m)] []"

text \<open>The default arguments of \<^verbatim>\<open>computeFluidMesh\<close>.\<close>

definition default_originOffset :: real where "default_originOffset = 1 / 10 ^ 4"
definition default_tMin :: real where "default_tMin = 1 / 10 ^ 2"
definition default_tEps :: real where "default_tEps = 1 / 10 ^ 4"

section \<open>\<^verbatim>\<open>addCaps\<close>\<close>

record DirectedEdge =
  dfrom :: nat
  dto :: nat
  triIdx :: nat

text \<open>\<^verbatim>\<open>edgeToDirected[key].push_back(e)\<close>\<close>

definition pushEdge :: "nat \<times> nat \<Rightarrow> DirectedEdge \<Rightarrow> ((nat \<times> nat) \<times> DirectedEdge list) list \<Rightarrow> ((nat \<times> nat) \<times> DirectedEdge list) list" where
  "pushEdge k e m = omap_update k (\<lambda>es. es @ [e]) [] m"

text \<open>The loop that fills \<^verbatim>\<open>edgeToDirected\<close> from the subset.\<close>

fun buildEdgeToDirected :: "IndexedTri list \<Rightarrow> nat list \<Rightarrow> ((nat \<times> nat) \<times> DirectedEdge list) list \<Rightarrow> ((nat \<times> nat) \<times> DirectedEdge list) list" where
  "buildEdgeToDirected tris [] m = m"
| "buildEdgeToDirected tris (ti # tis) m =
     (if ti \<ge> length tris then buildEdgeToDirected tris tis m
      else
        let idt = tris ! ti; a = i0 idt; b = i1 idt; c = i2 idt
        in buildEdgeToDirected tris tis
             (pushEdge (edgeKey c a) \<lparr>dfrom = c, dto = a, triIdx = ti\<rparr>
               (pushEdge (edgeKey b c) \<lparr>dfrom = b, dto = c, triIdx = ti\<rparr>
                 (pushEdge (edgeKey a b) \<lparr>dfrom = a, dto = b, triIdx = ti\<rparr> m))))"

text \<open>The loop over \<^verbatim>\<open>edgeToDirected\<close>, in key order, that collects \<^verbatim>\<open>boundaryEdges\<close>.\<close>

fun collectBoundary :: "((nat \<times> nat) \<times> DirectedEdge list) list \<Rightarrow> DirectedEdge list" where
  "collectBoundary [] = []"
| "collectBoundary ((k, es) # m) =
     (if length es \<noteq> 1 then collectBoundary m
      else \<lparr>dfrom = dfrom (es ! 0), dto = dto (es ! 0), triIdx = triIdx (es ! 0)\<rparr>
           # collectBoundary m)"

text \<open>\<^verbatim>\<open>nextMap[e.from].push_back({e.to, e.triIdx})\<close> for every boundary edge.\<close>

fun buildNextMap :: "DirectedEdge list \<Rightarrow> (nat \<times> (nat \<times> nat) list) list \<Rightarrow> (nat \<times> (nat \<times> nat) list) list" where
  "buildNextMap [] nm = nm"
| "buildNextMap (e # es) nm =
     buildNextMap es (omap_update (dfrom e) (\<lambda>ps. ps @ [(dto e, triIdx e)]) [] nm)"

subsection \<open>\<^verbatim>\<open>capOneLoop\<close>\<close>

text \<open>The body of the loop over the edges of one loop: no triangle, or one.\<close>

definition capEdge :: "real Vec3 \<Rightarrow> real Triangle \<Rightarrow> real Vec3 \<Rightarrow> real Vec3 \<Rightarrow> real Triangle list" where
  "capEdge C adjTri va vb =
     (let n = cross3 C va vb;
          len = vlen n
      in if len \<le> 1 / 10 ^ 10 then []
         else
           let n' = vscale n len;
               dot = vdot n' (normal adjTri)
           in [\<lparr> normal = (if dot < 0 then vneg n' else n'),
                 v0 = C,
                 v1 = (if dot \<ge> 0 then va else vb),
                 v2 = (if dot \<ge> 0 then vb else va) \<rparr>])"

text \<open>The centroid: the three sums, each divided by \<^verbatim>\<open>(float)loop.size()\<close>.\<close>

definition loopCentroid :: "real Vec3 list \<Rightarrow> nat list \<Rightarrow> real Vec3" where
  "loopCentroid vs loop =
     (let cx = foldl (\<lambda>s vi. s + vx (vs ! vi)) 0 loop;
          cy = foldl (\<lambda>s vi. s + vy (vs ! vi)) 0 loop;
          cz = foldl (\<lambda>s vi. s + vz (vs ! vi)) 0 loop;
          n = real (length loop)
      in \<lparr> vx = cx / n, vy = cy / n, vz = cz / n \<rparr>)"

text \<open>The triangles one call of \<^verbatim>\<open>capOneLoop\<close> appends to \<^verbatim>\<open>outTriangles\<close>.\<close>

definition capOneLoop :: "real StlReader \<Rightarrow> nat list \<Rightarrow> nat \<Rightarrow> real Triangle list option" where
  "capOneLoop m loop triIdxForNormal =
     (if length loop < 3 then Some []
      else
        let C = loopCentroid (vertices m) loop
        in case getTriangle m triIdxForNormal of
             None \<Rightarrow> None
           | Some adjTri \<Rightarrow>
               Some (concat (map (\<lambda>i. capEdge C adjTri (vertices m ! (loop ! i))
                                        (vertices m ! (loop ! ((i + 1) mod length loop))))
                              [0..<length loop])))"

subsection \<open>Loop tracing\<close>

text \<open>
  The search at the head of the outer loop: the first boundary edge whose pair is not in
  \<^verbatim>\<open>used\<close>.
\<close>

fun firstUnused :: "DirectedEdge list \<Rightarrow> (nat \<times> nat) set \<Rightarrow> DirectedEdge option" where
  "firstUnused [] used = None"
| "firstUnused (e # es) used =
     (if (dfrom e, dto e) \<in> used then firstUnused es used else Some e)"

text \<open>
  The search at the head of the inner loop, over \<^verbatim>\<open>nextMap[to]\<close>: \<^verbatim>\<open>nextV\<close> and
  \<^verbatim>\<open>nextTri\<close> start as 0 and take the first successor whose edge is not used.
\<close>

fun pickNext :: "(nat \<times> nat) list \<Rightarrow> nat \<Rightarrow> (nat \<times> nat) set \<Rightarrow> nat \<times> nat" where
  "pickNext [] to used = (0, 0)"
| "pickNext (p # ps) to used =
     (if (to, fst p) \<in> used then pickNext ps to used else p)"

text \<open>\<^verbatim>\<open>std::find(loop.begin(), loop.end(), nextV) - loop.begin()\<close>\<close>

definition findIndex :: "nat list \<Rightarrow> nat \<Rightarrow> nat" where
  "findIndex loop v = length (takeWhile (\<lambda>w. w \<noteq> v) loop)"

text \<open>The directed edges a next-vertex map holds.\<close>

definition nextEdges :: "(nat \<times> (nat \<times> nat) list) list \<Rightarrow> (nat \<times> nat) set" where
  "nextEdges nm = set (concat (map (\<lambda>(a, ps). map (\<lambda>p. (a, fst p)) ps) nm))"

text \<open>
  The inner \<^verbatim>\<open>while (to != start)\<close>. The state is \<^verbatim>\<open>loop\<close>, \<^verbatim>\<open>triOnLoop\<close>, \<^verbatim>\<open>to\<close>
  and \<^verbatim>\<open>used\<close>; \<open>calls\<close> collects the arguments of the calls of \<^verbatim>\<open>capOneLoop\<close> in the
  order they are made (a call only appends to \<^verbatim>\<open>outTriangles\<close>, which the trace never
  reads). The result is the state at the exit of the loop.
\<close>

function traceLoop :: "(nat \<times> (nat \<times> nat) list) list \<Rightarrow> nat \<Rightarrow> nat list \<Rightarrow> nat list \<Rightarrow> nat \<Rightarrow> (nat \<times> nat) set \<Rightarrow> (nat list \<times> nat) list \<Rightarrow> nat list \<times> nat list \<times> (nat \<times> nat) set \<times> (nat list \<times> nat) list" where
  "traceLoop nextMap start loop triOnLoop to used calls =
     (if to = start then (loop, triOnLoop, used, calls)
      else
        case pickNext (omap_get to [] nextMap) to used of
          (nextV, nextTri) \<Rightarrow>
            if nextV = 0 then (loop, triOnLoop, used, calls)
            else if nextV \<notin> set loop then
              traceLoop nextMap start (loop @ [nextV]) (triOnLoop @ [nextTri]) nextV
                (insert (to, nextV) used) calls
            else if nextV = start then (loop, triOnLoop, insert (to, nextV) used, calls)
            else
              let idx = findIndex loop nextV;
                  subLoop = drop idx loop;
                  loop' = take (idx + 1) loop
              in traceLoop nextMap start loop' (take (idx + 1) triOnLoop) (last loop')
                   (insert (to, nextV) used) (calls @ [(subLoop, triOnLoop ! idx)]))"
  by pat_completeness auto

lemma pickNext_cases:
  "pickNext ps to used = (0, 0) \<or> (pickNext ps to used \<in> set ps \<and> (to, fst (pickNext ps to used)) \<notin> used)"
  by (induction ps) auto

lemma pickNext_picked:
  assumes "pickNext ps to used = (nextV, nextTri)" and "nextV \<noteq> 0"
  shows "(nextV, nextTri) \<in> set ps \<and> (to, nextV) \<notin> used"
  using pickNext_cases [of ps to used] assms by auto

lemma omap_get_nextEdges:
  "p \<in> set (omap_get k [] nm) \<Longrightarrow> (k, fst p) \<in> nextEdges nm"
  by (induction nm) (auto simp: nextEdges_def split: if_splits)

lemma finite_nextEdges: "finite (nextEdges nm)"
  unfolding nextEdges_def by (rule finite_set)

lemma card_diff_insert_less:
  assumes "finite A" and "x \<in> A" and "x \<notin> U"
  shows "card (A - insert x U) < card (A - U)"
proof -
  have "A - insert x U \<subset> A - U" using assms by blast
  thus ?thesis using assms(1) by (simp add: psubset_card_mono)
qed

lemma traceLoop_step_decreases:
  assumes "pickNext (omap_get to [] nextMap) to used = (nextV, nextTri)" and "nextV \<noteq> 0"
  shows "card (nextEdges nextMap - insert (to, nextV) used) < card (nextEdges nextMap - used)"
proof -
  from pickNext_picked [OF assms] have
    m: "(nextV, nextTri) \<in> set (omap_get to [] nextMap)" and u: "(to, nextV) \<notin> used" by blast+
  from omap_get_nextEdges [OF m] have "(to, nextV) \<in> nextEdges nextMap" by simp
  thus ?thesis using u by (intro card_diff_insert_less finite_nextEdges)
qed

termination traceLoop
proof (relation "measure (\<lambda>(nextMap, start, loop, triOnLoop, to, used, calls).
                    card (nextEdges nextMap - used))", goal_cases)
  case 1 show ?case by simp
next
  case (2 nextMap start loop triOnLoop to used calls nextV nextTri)
  from traceLoop_step_decreases [OF 2(2) [symmetric] 2(3)] show ?case by simp
next
  case (3 nextMap start loop triOnLoop to used calls nextV nextTri idx subLoop loop')
  from traceLoop_step_decreases [OF 3(2) [symmetric] 3(3)] show ?case by simp
qed

text \<open>\<^verbatim>\<open>used\<close> only grows along the inner loop.\<close>

lemma traceLoop_used_mono:
  "traceLoop nextMap start loop triOnLoop to used calls = (loop', tri', used', calls')
     \<Longrightarrow> used \<subseteq> used'"
proof (induction nextMap start loop triOnLoop to used calls rule: traceLoop.induct)
  case (1 nextMap start loop triOnLoop to used calls)
  show ?case
  proof (cases "to = start")
    case True
    with "1.prems" show ?thesis by (simp add: traceLoop.simps [of nextMap start loop triOnLoop to used calls])
  next
    case ne: False
    obtain nextV nextTri where pk: "pickNext (omap_get to [] nextMap) to used = (nextV, nextTri)"
      by (cases "pickNext (omap_get to [] nextMap) to used")
    show ?thesis
    proof (cases "nextV = 0")
      case True
      with "1.prems" ne pk show ?thesis
        by (simp add: traceLoop.simps [of nextMap start loop triOnLoop to used calls])
    next
      case nz: False
      show ?thesis
      proof (cases "nextV \<in> set loop")
        case False
        with "1.prems" ne pk nz have
          "traceLoop nextMap start (loop @ [nextV]) (triOnLoop @ [nextTri]) nextV
             (insert (to, nextV) used) calls = (loop', tri', used', calls')"
          by (simp add: traceLoop.simps [of nextMap start loop triOnLoop to used calls])
        from "1.IH"(1) [OF ne pk [symmetric] nz False this] show ?thesis by blast
      next
        case inl: True
        show ?thesis
        proof (cases "nextV = start")
          case True
          with "1.prems" ne pk nz inl show ?thesis
            by (auto simp: traceLoop.simps [of nextMap start loop triOnLoop to used calls])
        next
          case False
          with "1.prems" ne pk nz inl have
            "traceLoop nextMap start (take (findIndex loop nextV + 1) loop)
               (take (findIndex loop nextV + 1) triOnLoop)
               (last (take (findIndex loop nextV + 1) loop))
               (insert (to, nextV) used)
               (calls @ [(drop (findIndex loop nextV) loop, triOnLoop ! findIndex loop nextV)])
             = (loop', tri', used', calls')"
            by (simp add: traceLoop.simps [of nextMap start loop triOnLoop to used calls] Let_def)
          from "1.IH"(2) [OF ne pk [symmetric] nz _ False refl refl refl this] inl
          show ?thesis by blast
        qed
      qed
    qed
  qed
qed

text \<open>
  The outer \<^verbatim>\<open>for (;;)\<close>: the result is \<^verbatim>\<open>used\<close> at the exit and the calls of
  \<^verbatim>\<open>capOneLoop\<close> made, in order.
\<close>

function traceAll :: "DirectedEdge list \<Rightarrow> (nat \<times> (nat \<times> nat) list) list \<Rightarrow> (nat \<times> nat) set \<Rightarrow> (nat list \<times> nat) list \<Rightarrow> (nat \<times> nat) set \<times> (nat list \<times> nat) list" where
  "traceAll boundaryEdges nextMap used calls =
     (case firstUnused boundaryEdges used of
        None \<Rightarrow> (used, calls)
      | Some e \<Rightarrow>
          let start = dfrom e;
              loop = [dfrom e, dto e];
              triOnLoop = [triIdx e, triIdx e]
          in case traceLoop nextMap start loop triOnLoop (last loop)
                    (insert (dfrom e, dto e) used) calls of
               (loop', triOnLoop', used', calls') \<Rightarrow>
                 traceAll boundaryEdges nextMap used' (calls' @ [(loop', triOnLoop' ! 0)]))"
  by pat_completeness auto

definition edgePairs :: "DirectedEdge list \<Rightarrow> (nat \<times> nat) set" where
  "edgePairs es = set (map (\<lambda>e. (dfrom e, dto e)) es)"

lemma firstUnused_Some:
  "firstUnused es used = Some e \<Longrightarrow> e \<in> set es \<and> (dfrom e, dto e) \<notin> used"
  by (induction es) (auto split: if_splits)

lemma firstUnused_None:
  "firstUnused es used = None \<longleftrightarrow> edgePairs es \<subseteq> used"
  by (induction es) (auto simp: edgePairs_def)

termination traceAll
proof (relation "measure (\<lambda>(boundaryEdges, nextMap, used, calls).
                    card (edgePairs boundaryEdges - used))", goal_cases)
  case 1 show ?case by simp
next
  case (2 boundaryEdges nextMap used calls e start loop triOnLoop loop' y triOnLoop' z used' calls')
  from firstUnused_Some [OF 2(1)] have
    e: "(dfrom e, dto e) \<in> edgePairs boundaryEdges" and u: "(dfrom e, dto e) \<notin> used"
    by (auto simp: edgePairs_def)
  have "traceLoop nextMap start loop triOnLoop (last loop) (insert (dfrom e, dto e) used) calls
          = (loop', triOnLoop', used', calls')"
    using 2(2-7) by simp
  from traceLoop_used_mono [OF this] have sub: "insert (dfrom e, dto e) used \<subseteq> used'" .
  have fin: "finite (edgePairs boundaryEdges)" by (simp add: edgePairs_def)
  have "edgePairs boundaryEdges - used' \<subset> edgePairs boundaryEdges - used"
    using e u sub by blast
  hence "card (edgePairs boundaryEdges - used') < card (edgePairs boundaryEdges - used)"
    using fin by (simp add: psubset_card_mono)
  thus ?case by simp
qed

text \<open>The first loop of \<^verbatim>\<open>addCaps\<close>: the triangles of the subset, in order.\<close>

fun subsetTriangles :: "real StlReader \<Rightarrow> nat list \<Rightarrow> real Triangle list \<Rightarrow> real Triangle list option" where
  "subsetTriangles m [] out = Some out"
| "subsetTriangles m (i # rest) out =
     (if i < length (indexedTriangles m) then
        (case getTriangle m i of
           None \<Rightarrow> None
         | Some t \<Rightarrow> subsetTriangles m rest (out @ [t]))
      else subsetTriangles m rest out)"

text \<open>The calls of \<^verbatim>\<open>capOneLoop\<close>, each appending to \<^verbatim>\<open>outTriangles\<close>.\<close>

fun capLoops :: "real StlReader \<Rightarrow> (nat list \<times> nat) list \<Rightarrow> real Triangle list \<Rightarrow> real Triangle list option" where
  "capLoops m [] out = Some out"
| "capLoops m ((loop, triIdxForNormal) # calls) out =
     (case capOneLoop m loop triIdxForNormal of
        None \<Rightarrow> None
      | Some caps \<Rightarrow> capLoops m calls (out @ caps))"

text \<open>The boundary edges of a subset and the calls the trace makes on them.\<close>

definition boundaryEdgesOf :: "'f StlReader \<Rightarrow> nat list \<Rightarrow> DirectedEdge list" where
  "boundaryEdgesOf m triangleIndices =
     collectBoundary (buildEdgeToDirected (indexedTriangles m) triangleIndices [])"

definition addCaps :: "real StlReader \<Rightarrow> nat list \<Rightarrow> real Triangle list option" where
  "addCaps m triangleIndices =
     (case subsetTriangles m triangleIndices [] of
        None \<Rightarrow> None
      | Some outTriangles \<Rightarrow>
          if vertices m = [] then Some outTriangles
          else
            let boundaryEdges = boundaryEdgesOf m triangleIndices
            in if boundaryEdges = [] then Some outTriangles
               else
                 let nextMap = buildNextMap boundaryEdges [];
                     (used, calls) = traceAll boundaryEdges nextMap {} []
                 in capLoops m calls outTriangles)"

section \<open>\<^verbatim>\<open>cleanMesh\<close>\<close>

datatype cm_line =
    CNoTriangles
  | CHeader
  | CDuplicatesRemoved nat
  | CVertices nat nat nat
  | CDegenerateRemoved nat
  | CNonManifold nat
  | CBeforeAfter nat nat

text \<open>
  The first loop: index the three corners, count and skip a triangle with two equal
  indices.
\<close>

fun indexTriangles :: "('f Vec3 \<Rightarrow> 'f Vec3 \<Rightarrow> bool) \<Rightarrow> 'f Triangle list \<Rightarrow> 'f vtable \<Rightarrow> (nat \<times> nat \<times> nat) list \<Rightarrow> nat \<Rightarrow> 'f vtable \<times> (nat \<times> nat \<times> nat) list \<times> nat" where
  "indexTriangles vlt [] st indexed degenerate = (st, indexed, degenerate)"
| "indexTriangles vlt (t # ts) st indexed degenerate =
     (case getIdx3 vlt t st of
        ((i, j, k), st') \<Rightarrow>
          if i = j \<or> j = k \<or> k = i then indexTriangles vlt ts st' indexed (degenerate + 1)
          else indexTriangles vlt ts st' (indexed @ [(i, j, k)]) degenerate)"

text \<open>\<^verbatim>\<open>key = {v0, v1, v2}; std::sort(key.begin(), key.end())\<close>\<close>

definition sortedKey :: "nat \<Rightarrow> nat \<Rightarrow> nat \<Rightarrow> nat list" where
  "sortedKey a b c = sort [a, b, c]"

text \<open>The second loop: \<^verbatim>\<open>if (!seen.insert(key).second) { ++dupTris; continue; }\<close>\<close>

fun uniqueTriangles :: "(nat \<times> nat \<times> nat) list \<Rightarrow> nat list set \<Rightarrow> (nat \<times> nat \<times> nat) list \<Rightarrow> nat \<Rightarrow> (nat \<times> nat \<times> nat) list \<times> nat" where
  "uniqueTriangles [] seen uniqueTris dupTris = (uniqueTris, dupTris)"
| "uniqueTriangles ((a, b, c) # tris) seen uniqueTris dupTris =
     (let key = sortedKey a b c
      in if key \<in> seen then uniqueTriangles tris seen uniqueTris (dupTris + 1)
         else uniqueTriangles tris (insert key seen) (uniqueTris @ [(a, b, c)]) dupTris)"

text \<open>
  The edge count, three \<^verbatim>\<open>edgeCount[edgeKey(..)]++\<close> per triangle; \<^verbatim>\<open>cleanMesh\<close> runs
  it over \<^verbatim>\<open>uniqueTris\<close> and \<^verbatim>\<open>checkWatertight\<close> over \<^verbatim>\<open>indexedTriangles_\<close>.
\<close>

definition edgeIncr :: "nat \<times> nat \<Rightarrow> ((nat \<times> nat) \<times> int) list \<Rightarrow> ((nat \<times> nat) \<times> int) list" where
  "edgeIncr k m = omap_update k (\<lambda>c. c + 1) 0 m"

fun countEdges :: "(nat \<times> nat \<times> nat) list \<Rightarrow> ((nat \<times> nat) \<times> int) list \<Rightarrow> ((nat \<times> nat) \<times> int) list" where
  "countEdges [] m = m"
| "countEdges ((a, b, c) # ts) m =
     countEdges ts (edgeIncr (edgeKey c a) (edgeIncr (edgeKey b c) (edgeIncr (edgeKey a b) m)))"

text \<open>\<^verbatim>\<open>for (kv : edgeCount) if (kv.second > 2) ++dupEdges\<close>\<close>

fun countDupEdges :: "((nat \<times> nat) \<times> int) list \<Rightarrow> nat \<Rightarrow> nat" where
  "countDupEdges [] dupEdges = dupEdges"
| "countDupEdges ((k, c) # m) dupEdges =
     (if c > 2 then countDupEdges m (dupEdges + 1) else countDupEdges m dupEdges)"

text \<open>The last loop: the triangles are rebuilt from the vertex table, normals recomputed.\<close>

fun rebuildTriangles :: "real Vec3 list \<Rightarrow> (nat \<times> nat \<times> nat) list \<Rightarrow> real Triangle list" where
  "rebuildTriangles verts [] = []"
| "rebuildTriangles verts ((i, j, k) # tris) =
     (let a = verts ! i; b = verts ! j; c = verts ! k;
          n = cross3 a b c;
          len = vlen n
      in if len \<le> 1 / 10 ^ 10 then rebuildTriangles verts tris
         else \<lparr> normal = vscale n len, v0 = a, v1 = b, v2 = c \<rparr> # rebuildTriangles verts tris)"

text \<open>The function returns the new content of \<^verbatim>\<open>triangles\<close> and the lines of the report.\<close>

definition cleanMesh :: "real Triangle list \<Rightarrow> real Triangle list \<times> cm_line list" where
  "cleanMesh tris =
     (let initialTris = length tris
      in if initialTris = 0 then (tris, [CNoTriangles])
         else
           case indexTriangles vless tris ([], []) [] 0 of
             ((vToIdx, verts), indexed, degenerate) \<Rightarrow>
               let totalVertexRefs = initialTris * 3;
                   (uniqueTris, dupTris) = uniqueTriangles indexed {} [] 0;
                   dupEdges = countDupEdges (countEdges uniqueTris []) 0;
                   out = rebuildTriangles verts uniqueTris
               in (out,
                   [CHeader, CDuplicatesRemoved dupTris,
                    CVertices totalVertexRefs (length verts) (totalVertexRefs - length verts),
                    CDegenerateRemoved degenerate]
                   @ (if dupEdges > 0 then [CNonManifold dupEdges] else [])
                   @ [CBeforeAfter initialTris (length out)]))"

section \<open>\<^verbatim>\<open>computeFluidMesh\<close>\<close>

text \<open>The body of the loop over the caps: swap \<^verbatim>\<open>v1\<close> and \<^verbatim>\<open>v2\<close>, negate the normal.\<close>

definition flipTriangle :: "real Triangle \<Rightarrow> real Triangle" where
  "flipTriangle t = t \<lparr> v1 := v2 t, v2 := v1 t, normal := vneg (normal t) \<rparr>"

text \<open>
  The content of \<^verbatim>\<open>outFluid\<close> when \<^verbatim>\<open>cleanMesh\<close> is called: the loop runs over the
  indices from \<^verbatim>\<open>evenHitTriangles.size()\<close> up.
\<close>

definition fluidBeforeClean :: "real StlReader \<Rightarrow> real \<Rightarrow> real \<Rightarrow> real \<Rightarrow> real Triangle list option" where
  "fluidBeforeClean m originOffset tMin tEps =
     (case evenHitTriangles m originOffset tMin tEps of
        None \<Rightarrow> None
      | Some evenHit \<Rightarrow>
          (case addCaps m evenHit of
             None \<Rightarrow> None
           | Some outFluid \<Rightarrow>
               Some (take (length evenHit) outFluid
                     @ map flipTriangle (drop (length evenHit) outFluid))))"

definition computeFluidMesh :: "real StlReader \<Rightarrow> real \<Rightarrow> real \<Rightarrow> real \<Rightarrow> (real Triangle list \<times> cm_line list) option" where
  "computeFluidMesh m originOffset tMin tEps =
     (case fluidBeforeClean m originOffset tMin tEps of
        None \<Rightarrow> None
      | Some outFluid \<Rightarrow> Some (cleanMesh outFluid))"

section \<open>\<^verbatim>\<open>checkWatertight\<close>\<close>

datatype wt_line =
    WNoTriangles
  | WDuplicates int
  | WEdges nat int int
  | WDegenerate int
  | WVertices nat nat
  | WWatertight bool

text \<open>The first loop: \<^verbatim>\<open>if (!seen.insert(key).second) ++duplicateTriangles\<close>.\<close>

fun countDuplicateTriangles :: "IndexedTri list \<Rightarrow> nat list set \<Rightarrow> int \<Rightarrow> int" where
  "countDuplicateTriangles [] seen d = d"
| "countDuplicateTriangles (t # ts) seen d =
     (let key = sortedKey (i0 t) (i1 t) (i2 t)
      in if key \<in> seen then countDuplicateTriangles ts seen (d + 1)
         else countDuplicateTriangles ts (insert key seen) d)"

text \<open>The loop over \<^verbatim>\<open>edgeCount\<close>: \<^verbatim>\<open>if (kv.second == 1) ++boundaryEdges; else if (kv.second > 2) ++nonManifoldEdges\<close>.\<close>

fun classifyEdges :: "((nat \<times> nat) \<times> int) list \<Rightarrow> int \<times> int \<Rightarrow> int \<times> int" where
  "classifyEdges [] (b, n) = (b, n)"
| "classifyEdges ((k, c) # m) (b, n) =
     (if c = 1 then classifyEdges m (b + 1, n)
      else if c > 2 then classifyEdges m (b, n + 1)
      else classifyEdges m (b, n))"

text \<open>The squared cross product \<^verbatim>\<open>area2\<close> of the third loop.\<close>

definition area2 :: "real Vec3 \<Rightarrow> real Vec3 \<Rightarrow> real Vec3 \<Rightarrow> real" where
  "area2 a b c = norm2 (cross3 a b c)"

definition areaEps :: real where
  "areaEps = 1 / 10 ^ 10"

fun countDegenerate :: "real Vec3 list \<Rightarrow> IndexedTri list \<Rightarrow> int \<Rightarrow> int" where
  "countDegenerate vs [] d = d"
| "countDegenerate vs (t # ts) d =
     (if area2 (vs ! i0 t) (vs ! i1 t) (vs ! i2 t) \<le> areaEps * areaEps
      then countDegenerate vs ts (d + 1) else countDegenerate vs ts d)"

definition triples :: "IndexedTri list \<Rightarrow> (nat \<times> nat \<times> nat) list" where
  "triples ts = map (\<lambda>t. (i0 t, i1 t, i2 t)) ts"

text \<open>The function returns its boolean and the lines it wrote to \<^verbatim>\<open>out\<close>.\<close>

definition checkWatertight :: "real StlReader \<Rightarrow> bool \<times> wt_line list" where
  "checkWatertight m =
     (if indexedTriangles m = [] then (False, [WNoTriangles])
      else
        let duplicateTriangles = countDuplicateTriangles (indexedTriangles m) {} 0;
            edgeCount = countEdges (triples (indexedTriangles m)) [];
            (boundaryEdges, nonManifoldEdges) = classifyEdges edgeCount (0, 0);
            degenerate = countDegenerate (vertices m) (indexedTriangles m) 0;
            watertight = (duplicateTriangles = 0 \<and> boundaryEdges = 0 \<and> nonManifoldEdges = 0
                          \<and> degenerate = 0)
        in (watertight,
            (if duplicateTriangles > 0 then [WDuplicates duplicateTriangles] else [])
            @ [WEdges (length edgeCount) boundaryEdges nonManifoldEdges]
            @ (if degenerate > 0 then [WDegenerate degenerate] else [])
            @ [WVertices (length (vertices m)) (length (indexedTriangles m)),
               WWatertight watertight]))"

subsection \<open>What the three checks mean\<close>



definition okeys :: "('k::linorder \<times> 'v) list \<Rightarrow> bool" where
  "okeys m = (sorted (map fst m) \<and> distinct (map fst m))"

lemma omap_update_keys: "fst ` set (omap_update k f d m) = insert k (fst ` set m)"
proof (induction m)
  case Nil show ?case by simp
next
  case (Cons p m)
  obtain k' v where p: "p = (k', v)" by (cases p)
  show ?case unfolding p using Cons.IH by (cases "k = k'"; cases "k < k'") auto
qed

lemma okeys_omap_update: "okeys m \<Longrightarrow> okeys (omap_update k f d m)"
proof (induction m)
  case Nil show ?case by (simp add: okeys_def)
next
  case (Cons p m)
  obtain k' v where p: "p = (k', v)" by (cases p)
  from Cons.prems have m: "okeys m" and lt: "\<forall>q \<in> set m. k' < fst q"
    by (auto simp: okeys_def p less_le)
  have ih: "okeys (omap_update k f d m)" using Cons.IH m by simp
  show ?case
  proof (cases "k = k'")
    case True thus ?thesis using Cons.prems by (simp add: okeys_def p)
  next
    case False
    show ?thesis
    proof (cases "k < k'")
      case True
      thus ?thesis using Cons.prems False by (auto simp: okeys_def p)
    next
      case ge: False
      hence "k' < k" using False by simp
      have "\<And>q. q \<in> set (omap_update k f d m) \<Longrightarrow> k' < fst q"
      proof -
        fix q assume "q \<in> set (omap_update k f d m)"
        hence "fst q \<in> insert k (fst ` set m)"
          using omap_update_keys [of k f d m] by blast
        thus "k' < fst q" using lt \<open>k' < k\<close> by auto
      qed
      hence "\<forall>q \<in> set (omap_update k f d m). k' < fst q" by blast
      thus ?thesis using ih False ge by (auto simp: okeys_def p less_le)
    qed
  qed
qed




















section \<open>The empty mesh\<close>

definition emptyReader :: "real StlReader" where
  "emptyReader = \<lparr> triangles = [], vertices = [], indexedTriangles = [], originalFacetNormals = [] \<rparr>"

lemma evenHitTriangles_empty:
  "indexedTriangles m = [] \<Longrightarrow> evenHitTriangles m originOffset tMin tEps = Some []"
  by (simp add: evenHitTriangles_def)

lemma addCaps_empty: "addCaps m [] = Some []"
  by (simp add: addCaps_def boundaryEdgesOf_def)

lemma cleanMesh_empty: "cleanMesh [] = ([], [CNoTriangles])"
  by (simp add: cleanMesh_def)

lemma fluidBeforeClean_empty:
  "indexedTriangles m = [] \<Longrightarrow> fluidBeforeClean m originOffset tMin tEps = Some []"
  by (simp add: fluidBeforeClean_def evenHitTriangles_empty addCaps_empty)

text \<open>
  Claim C10. On a mesh with no triangle nothing throws: the classifier keeps nothing,
  \<^verbatim>\<open>addCaps\<close> adds nothing, \<^verbatim>\<open>computeFluidMesh\<close> leaves the fluid list empty and
  \<^verbatim>\<open>cleanMesh\<close> reports "No triangles."; \<^verbatim>\<open>volume()\<close> is 0; \<^verbatim>\<open>cleanMesh\<close> on
  the empty list leaves it empty with the same report; \<^verbatim>\<open>checkWatertight\<close> writes
  "Watertight: no triangles" and returns false.
\<close>

theorem empty_mesh_degrades_gracefully:
  assumes "indexedTriangles m = []"
  shows "evenHitTriangles m originOffset tMin tEps = Some []
       \<and> addCaps m [] = Some []
       \<and> computeFluidMesh m originOffset tMin tEps = Some ([], [CNoTriangles])
       \<and> volume m = 0
       \<and> cleanMesh [] = ([], [CNoTriangles])
       \<and> checkWatertight m = (False, [WNoTriangles])"
  using assms
  by (simp add: evenHitTriangles_empty addCaps_empty cleanMesh_empty fluidBeforeClean_empty
      computeFluidMesh_def volume_def checkWatertight_def)

theorem empty_mesh_degrades_gracefully_witness:
  "indexedTriangles emptyReader = []
   \<and> computeFluidMesh emptyReader default_originOffset default_tMin default_tEps
       = Some ([], [CNoTriangles])
   \<and> volume emptyReader = 0
   \<and> checkWatertight emptyReader = (False, [WNoTriangles])"
proof -
  have e: "indexedTriangles emptyReader = []" by (simp add: emptyReader_def)
  show ?thesis
    using empty_mesh_degrades_gracefully [OF e, of default_originOffset default_tMin default_tEps] e
    by simp
qed

section \<open>The interior classifier\<close>






lemma getTriangle_Some:
  "i < length (indexedTriangles m) \<Longrightarrow> \<exists>t. getTriangle m i = Some t"
  by (simp add: getTriangle_def Let_def)

lemma getTriangle_None:
  "getTriangle m i = None \<longleftrightarrow> \<not> i < length (indexedTriangles m)"
  by (simp add: getTriangle_def Let_def)

lemma rayIntersect_Some:
  "k < length (indexedTriangles m) \<Longrightarrow> \<exists>r. rayIntersect m k ro rd = Some r"
  using getTriangle_Some [of k m] by (auto simp: rayIntersect_def)

lemma collectHits_eq:
  assumes "\<forall>k \<in> set ks. k < length (indexedTriangles m)"
  shows "collectHits m i ro rd tMin ks hits =
           Some (hits @ concat (map (\<lambda>k. case rayIntersect m k ro rd of
                                            Some (Some t) \<Rightarrow> if t > tMin then [(t, k)] else []
                                          | _ \<Rightarrow> [])
                                 (filter (\<lambda>k. k \<noteq> i) ks)))"
  using assms
proof (induction ks arbitrary: hits)
  case Nil show ?case by simp
next
  case (Cons k ks)
  from Cons.prems have k: "k < length (indexedTriangles m)"
    and ks: "\<forall>k \<in> set ks. k < length (indexedTriangles m)" by simp_all
  obtain r where r: "rayIntersect m k ro rd = Some r" using rayIntersect_Some [OF k] by blast
  show ?case
  proof (cases "k = i")
    case True thus ?thesis using Cons.IH [OF ks] by simp
  next
    case False
    show ?thesis
    proof (cases r)
      case None thus ?thesis using Cons.IH [OF ks] False r by simp
    next
      case (Some t) thus ?thesis using Cons.IH [OF ks] False r by simp
    qed
  qed
qed











lemma evenHitLoop_filter:
  assumes "\<And>i. i \<in> set ks \<Longrightarrow> isEvenHit m originOffset tMin tEps i = Some (P i)"
  shows "evenHitLoop m originOffset tMin tEps ks acc = Some (acc @ filter P ks)"
  using assms by (induction ks arbitrary: acc) auto









section \<open>The vertex table\<close>

text \<open>
  The merge only asks whether two positions are equivalent under the comparison of the map.
  \<open>keyed vlt ok key\<close> says that, on the positions \<open>ok\<close> admits, being equivalent is
  having the same \<open>key\<close>. The invariant of the table: its vertices are admitted and have
  distinct keys, and \<^verbatim>\<open>find\<close> returns the slot that holds the key, if any.
\<close>

definition keyed :: "('k \<Rightarrow> 'k \<Rightarrow> bool) \<Rightarrow> ('k \<Rightarrow> bool) \<Rightarrow> ('k \<Rightarrow> 'c) \<Rightarrow> bool" where
  "keyed vlt ok key = (\<forall>a b. ok a \<longrightarrow> ok b \<longrightarrow> ((\<not> vlt a b \<and> \<not> vlt b a) \<longleftrightarrow> key a = key b))"

definition vt_inv :: "('f Vec3 \<Rightarrow> 'f Vec3 \<Rightarrow> bool) \<Rightarrow> ('f Vec3 \<Rightarrow> bool) \<Rightarrow> ('f Vec3 \<Rightarrow> 'c) \<Rightarrow> 'f vtable \<Rightarrow> bool" where
  "vt_inv vlt ok key st =
     (list_all ok (snd st) \<and> distinct (map key (snd st))
      \<and> (\<forall>v. ok v \<longrightarrow> map_find vlt v (fst st) = None \<longrightarrow> key v \<notin> key ` set (snd st))
      \<and> (\<forall>v i. ok v \<longrightarrow> map_find vlt v (fst st) = Some i
             \<longrightarrow> i < length (snd st) \<and> key (snd st ! i) = key v))"

lemma map_find_append:
  "map_find vlt v (m @ [(k, i)]) =
     (case map_find vlt v m of
        Some j \<Rightarrow> Some j
      | None \<Rightarrow> if \<not> vlt v k \<and> \<not> vlt k v then Some i else None)"
  by (induction m) auto

lemma vt_inv_empty: "vt_inv vlt ok key ([], [])"
  by (simp add: vt_inv_def)

lemma getIdx_inv:
  assumes K: "keyed vlt ok key" and I: "vt_inv vlt ok key st" and v: "ok v"
    and g: "getIdx vlt v st = (i, st')"
  shows "vt_inv vlt ok key st' \<and> i < length (snd st') \<and> key (snd st' ! i) = key v
         \<and> (\<exists>ext. snd st' = snd st @ ext)"
proof -
  obtain M V where st: "st = (M, V)" by (cases st)
  from I have okV: "list_all ok V" and dV: "distinct (map key V)"
    and FN: "\<And>w. ok w \<Longrightarrow> map_find vlt w M = None \<Longrightarrow> key w \<notin> key ` set V"
    and FS: "\<And>w j. ok w \<Longrightarrow> map_find vlt w M = Some j \<Longrightarrow> j < length V \<and> key (V ! j) = key w"
    by (simp_all add: vt_inv_def st)
  show ?thesis
  proof (cases "map_find vlt v M")
    case (Some j)
    with g have e: "i = j" "st' = st" by (simp_all add: getIdx_def st)
    from FS [OF v Some] have "j < length V \<and> key (V ! j) = key v" .
    thus ?thesis using I e by (simp add: st)
  next
    case None
    with g have e: "i = length V" "st' = (M @ [(v, length V)], V @ [v])"
      by (auto simp: getIdx_def st)
    from FN [OF v None] have fresh: "key v \<notin> key ` set V" .
    have d': "distinct (map key (V @ [v]))" using dV fresh by simp
    have ok': "list_all ok (V @ [v])" using okV v by simp
    have kv: "(\<not> vlt w v \<and> \<not> vlt v w) \<longleftrightarrow> key w = key v" if "ok w" for w
      using K that v by (simp add: keyed_def)
    have FN': "key w \<notin> key ` set (V @ [v])"
      if w: "ok w" and n: "map_find vlt w (M @ [(v, length V)]) = None" for w
    proof -
      from n have a: "map_find vlt w M = None" and b: "\<not> (\<not> vlt w v \<and> \<not> vlt v w)"
        by (auto simp: map_find_append split: option.splits if_splits)
      from FN [OF w a] b kv [OF w] show ?thesis by simp
    qed
    have FS': "j < length (V @ [v]) \<and> key ((V @ [v]) ! j) = key w"
      if w: "ok w" and n: "map_find vlt w (M @ [(v, length V)]) = Some j" for w j
    proof (cases "map_find vlt w M")
      case (Some j')
      with n have "j = j'" by (simp add: map_find_append)
      with FS [OF w Some] show ?thesis by (simp add: nth_append)
    next
      case Nw: None
      with n have "j = length V" and "\<not> vlt w v \<and> \<not> vlt v w"
        by (auto simp: map_find_append split: if_splits)
      with kv [OF w] show ?thesis by simp
    qed
    have "vt_inv vlt ok key st'"
      unfolding vt_inv_def e fst_conv snd_conv using ok' d' FN' FS' by blast
    thus ?thesis by (simp add: e st)
  qed
qed


definition slot :: "('v \<Rightarrow> 'c) \<Rightarrow> 'v list \<Rightarrow> nat \<Rightarrow> 'v \<Rightarrow> bool" where
  "slot key V i v = (i < length V \<and> key (V ! i) = key v)"

definition slots3 :: "('f Vec3 \<Rightarrow> 'c) \<Rightarrow> 'f Vec3 list \<Rightarrow> nat \<times> nat \<times> nat \<Rightarrow> 'f Triangle \<Rightarrow> bool" where
  "slots3 key V ijk t =
     (case ijk of (i, j, k) \<Rightarrow> slot key V i (v0 t) \<and> slot key V j (v1 t) \<and> slot key V k (v2 t))"

definition tri_ok :: "('f Vec3 \<Rightarrow> bool) \<Rightarrow> 'f Triangle \<Rightarrow> bool" where
  "tri_ok ok t = (ok (v0 t) \<and> ok (v1 t) \<and> ok (v2 t))"

definition nondegK :: "('f Vec3 \<Rightarrow> 'c) \<Rightarrow> 'f Triangle \<Rightarrow> bool" where
  "nondegK key t = (key (v0 t) \<noteq> key (v1 t) \<and> key (v1 t) \<noteq> key (v2 t) \<and> key (v2 t) \<noteq> key (v0 t))"

lemma slot_ext: "slot key V i v \<Longrightarrow> slot key (V @ ext) i v"
  by (simp add: slot_def nth_append)

lemma slots3_ext: "slots3 key V ijk t \<Longrightarrow> slots3 key (V @ ext) ijk t"
  by (cases ijk) (simp add: slots3_def slot_ext)

lemma slot_eq:
  assumes "distinct (map key V)" and "slot key V i v" and "slot key V j w"
  shows "i = j \<longleftrightarrow> key v = key w"
proof
  assume "i = j" thus "key v = key w" using assms(2,3) by (simp add: slot_def)
next
  assume e: "key v = key w"
  from assms(2,3) have i: "i < length (map key V)" and j: "j < length (map key V)"
    and n: "map key V ! i = map key V ! j" using e by (simp_all add: slot_def)
  show "i = j" using nth_eq_iff_index_eq [OF assms(1) i j] n by blast
qed

lemma getIdx3_inv:
  assumes K: "keyed vlt ok key" and I: "vt_inv vlt ok key st" and t: "tri_ok ok t"
    and g: "getIdx3 vlt t st = (ijk, st')"
  shows "vt_inv vlt ok key st' \<and> slots3 key (snd st') ijk t \<and> (\<exists>ext. snd st' = snd st @ ext)"
proof -
  obtain i st1 where g1: "getIdx vlt (v0 t) st = (i, st1)" by (cases "getIdx vlt (v0 t) st")
  obtain j st2 where g2: "getIdx vlt (v1 t) st1 = (j, st2)" by (cases "getIdx vlt (v1 t) st1")
  obtain k st3 where g3: "getIdx vlt (v2 t) st2 = (k, st3)" by (cases "getIdx vlt (v2 t) st2")
  from g have e: "ijk = (i, j, k)" "st' = st3" by (simp_all add: getIdx3_def g1 g2 g3)
  from t have o: "ok (v0 t)" "ok (v1 t)" "ok (v2 t)" by (simp_all add: tri_ok_def)
  from getIdx_inv [OF K I o(1) g1] obtain e1 where
    I1: "vt_inv vlt ok key st1" and s1: "slot key (snd st1) i (v0 t)" and x1: "snd st1 = snd st @ e1"
    by (auto simp: slot_def)
  from getIdx_inv [OF K I1 o(2) g2] obtain e2 where
    I2: "vt_inv vlt ok key st2" and s2: "slot key (snd st2) j (v1 t)" and x2: "snd st2 = snd st1 @ e2"
    by (auto simp: slot_def)
  from getIdx_inv [OF K I2 o(3) g3] obtain e3 where
    I3: "vt_inv vlt ok key st3" and s3: "slot key (snd st3) k (v2 t)" and x3: "snd st3 = snd st2 @ e3"
    by (auto simp: slot_def)
  have "slot key (snd st3) i (v0 t)" using slot_ext [OF slot_ext [OF s1, of e2], of e3] x2 x3 by simp
  moreover have "slot key (snd st3) j (v1 t)" using slot_ext [OF s2, of e3] x3 by simp
  moreover have "snd st3 = snd st @ (e1 @ e2 @ e3)" using x1 x2 x3 by simp
  ultimately show ?thesis using I3 s3 e by (auto simp: slots3_def)
qed

lemma indexTriangles_char:
  assumes K: "keyed vlt ok key"
  shows "vt_inv vlt ok key st \<Longrightarrow> list_all (tri_ok ok) ts \<Longrightarrow>
         indexTriangles vlt ts st indexed d = (st', indexed', d') \<Longrightarrow>
           vt_inv vlt ok key st' \<and> (\<exists>ext. snd st' = snd st @ ext)
           \<and> (\<exists>new. indexed' = indexed @ new
                    \<and> list_all2 (slots3 key (snd st')) new (filter (nondegK key) ts))
           \<and> d' = d + length (filter (\<lambda>t. \<not> nondegK key t) ts)"
proof (induction ts arbitrary: st indexed d)
  case Nil thus ?case by simp
next
  case (Cons t ts)
  from Cons.prems(2) have t: "tri_ok ok t" and ts: "list_all (tri_ok ok) ts" by simp_all
  obtain i j k st1 where g: "getIdx3 vlt t st = ((i, j, k), st1)"
    by (cases "getIdx3 vlt t st") auto
  from getIdx3_inv [OF K Cons.prems(1) t g] obtain e1 where
    I1: "vt_inv vlt ok key st1" and s: "slots3 key (snd st1) (i, j, k) t"
    and x1: "snd st1 = snd st @ e1" by blast
  from I1 have dist: "distinct (map key (snd st1))" by (simp add: vt_inv_def)
  from s have si: "slot key (snd st1) i (v0 t)" and sj: "slot key (snd st1) j (v1 t)"
    and sk: "slot key (snd st1) k (v2 t)" by (simp_all add: slots3_def)
  have deg: "(i = j \<or> j = k \<or> k = i) \<longleftrightarrow> \<not> nondegK key t"
    using slot_eq [OF dist si sj] slot_eq [OF dist sj sk] slot_eq [OF dist sk si]
    by (simp add: nondegK_def)
  show ?case
  proof (cases "nondegK key t")
    case False
    with deg Cons.prems(3) g have
      r: "indexTriangles vlt ts st1 indexed (d + 1) = (st', indexed', d')" by simp
    from Cons.IH [OF I1 ts r] x1 False show ?thesis by auto
  next
    case True
    with deg Cons.prems(3) g have
      r: "indexTriangles vlt ts st1 (indexed @ [(i, j, k)]) d = (st', indexed', d')" by simp
    from Cons.IH [OF I1 ts r] obtain e2 new where
      I': "vt_inv vlt ok key st'" and x2: "snd st' = snd st1 @ e2"
      and n: "indexed' = (indexed @ [(i, j, k)]) @ new"
      and l: "list_all2 (slots3 key (snd st')) new (filter (nondegK key) ts)"
      and d: "d' = d + length (filter (\<lambda>t. \<not> nondegK key t) ts)" by blast
    have "slots3 key (snd st') (i, j, k) t" using slots3_ext [OF s, of e2] x2 by simp
    hence "list_all2 (slots3 key (snd st')) ((i, j, k) # new) (filter (nondegK key) (t # ts))"
      using l True by simp
    moreover have "indexed' = indexed @ ((i, j, k) # new)" using n by simp
    moreover have "snd st' = snd st @ (e1 @ e2)" using x1 x2 by simp
    moreover have "d' = d + length (filter (\<lambda>t. \<not> nondegK key t) (t # ts))"
      using d True by simp
    ultimately show ?thesis using I' by blast
  qed
qed

lemma indexAll_char:
  assumes K: "keyed vlt ok key"
  shows "vt_inv vlt ok key st \<Longrightarrow> list_all (tri_ok ok) ts \<Longrightarrow>
         indexAll vlt ts st its = (st', its') \<Longrightarrow>
           vt_inv vlt ok key st' \<and> (\<exists>ext. snd st' = snd st @ ext)
           \<and> (\<exists>new. its' = its @ new
                    \<and> list_all2 (\<lambda>it t. slots3 key (snd st') (i0 it, i1 it, i2 it) t) new ts)"
proof (induction ts arbitrary: st its)
  case Nil thus ?case by simp
next
  case (Cons t ts)
  from Cons.prems(2) have t: "tri_ok ok t" and ts: "list_all (tri_ok ok) ts" by simp_all
  obtain i j k st1 where g: "getIdx3 vlt t st = ((i, j, k), st1)"
    by (cases "getIdx3 vlt t st") auto
  from getIdx3_inv [OF K Cons.prems(1) t g] obtain e1 where
    I1: "vt_inv vlt ok key st1" and s: "slots3 key (snd st1) (i, j, k) t"
    and x1: "snd st1 = snd st @ e1" by blast
  from Cons.prems(3) g have
    r: "indexAll vlt ts st1 (its @ [\<lparr>i0 = i, i1 = j, i2 = k\<rparr>]) = (st', its')" by simp
  from Cons.IH [OF I1 ts r] obtain e2 new where
    I': "vt_inv vlt ok key st'" and x2: "snd st' = snd st1 @ e2"
    and n: "its' = (its @ [\<lparr>i0 = i, i1 = j, i2 = k\<rparr>]) @ new"
    and l: "list_all2 (\<lambda>it t. slots3 key (snd st') (i0 it, i1 it, i2 it) t) new ts" by blast
  have "slots3 key (snd st') (i, j, k) t" using slots3_ext [OF s, of e2] x2 by simp
  hence "list_all2 (\<lambda>it t. slots3 key (snd st') (i0 it, i1 it, i2 it) t)
           (\<lparr>i0 = i, i1 = j, i2 = k\<rparr> # new) (t # ts)"
    using l by simp
  moreover have "its' = its @ (\<lparr>i0 = i, i1 = j, i2 = k\<rparr> # new)" using n by simp
  moreover have "snd st' = snd st @ (e1 @ e2)" using x1 x2 by simp
  ultimately show ?case using I' by blast
qed

section \<open>What \<^verbatim>\<open>cleanMesh\<close> keeps\<close>

text \<open>
  In terms of vertex positions: a triangle is degenerate when two of its corners are the
  same position; two triangles are duplicates when they have the same three corners in any
  order; a triangle is large enough when its cross product is longer than \<open>10\<^sup>-\<^sup>1\<^sup>0\<close>.
  \<open>firstOcc\<close> keeps the first element of every key. \<open>renormal\<close> is the triangle with its
  normal recomputed from its corners.
\<close>

definition nondegenerate :: "real Triangle \<Rightarrow> bool" where
  "nondegenerate t = (v0 t \<noteq> v1 t \<and> v1 t \<noteq> v2 t \<and> v2 t \<noteq> v0 t)"

definition posKey :: "real Triangle \<Rightarrow> real Vec3 set" where
  "posKey t = {v0 t, v1 t, v2 t}"

fun firstOcc :: "('a \<Rightarrow> 'b) \<Rightarrow> 'b set \<Rightarrow> 'a list \<Rightarrow> 'a list" where
  "firstOcc key seen [] = []"
| "firstOcc key seen (x # xs) =
     (if key x \<in> seen then firstOcc key seen xs else x # firstOcc key (insert (key x) seen) xs)"

definition bigEnough :: "real Triangle \<Rightarrow> bool" where
  "bigEnough t = (vlen (cross3 (v0 t) (v1 t) (v2 t)) > 1 / 10 ^ 10)"

definition renormal :: "real Triangle \<Rightarrow> real Triangle" where
  "renormal t =
     \<lparr> normal = vscale (cross3 (v0 t) (v1 t) (v2 t)) (vlen (cross3 (v0 t) (v1 t) (v2 t))),
       v0 = v0 t, v1 = v1 t, v2 = v2 t \<rparr>"

definition cleaned :: "real Triangle list \<Rightarrow> real Triangle list" where
  "cleaned ts = map renormal (filter bigEnough (firstOcc posKey {} (filter nondegenerate ts)))"

lemma vless_equiv: "(\<not> vless a b \<and> \<not> vless b a) \<longleftrightarrow> a = b"
proof -
  have "a = b \<longleftrightarrow> vx a = vx b \<and> vy a = vy b \<and> vz a = vz b" by auto
  thus ?thesis by (auto simp: vless_def Vec3_less_def)
qed

lemma vless_keyed: "keyed vless (\<lambda>v. True) (\<lambda>v. v)"
  by (simp add: keyed_def vless_equiv)

lemma nondegK_id: "nondegK (\<lambda>v. v) = nondegenerate"
  by (simp add: fun_eq_iff nondegK_def nondegenerate_def)

lemma uniqueTriangles_firstOcc:
  "\<exists>n. uniqueTriangles xs seen acc d
          = (acc @ firstOcc (\<lambda>(a, b, c). sortedKey a b c) seen xs, n)
       \<and> n + length (firstOcc (\<lambda>(a, b, c). sortedKey a b c) seen xs) = d + length xs"
proof (induction xs arbitrary: seen acc d)
  case Nil show ?case by simp
next
  case (Cons x xs)
  obtain a b c where x: "x = (a, b, c)" by (cases x)
  show ?case
  proof (cases "sortedKey a b c \<in> seen")
    case True
    from Cons.IH [of seen acc "d + 1"] True show ?thesis by (auto simp: x Let_def)
  next
    case False
    from Cons.IH [of "insert (sortedKey a b c) seen" "acc @ [(a, b, c)]" d] False
    show ?thesis by (auto simp: x Let_def)
  qed
qed

lemma firstOcc_rel:
  assumes agree: "\<And>x t x' t'. R x t \<Longrightarrow> R x' t' \<Longrightarrow> (k1 x = k1 x' \<longleftrightarrow> k2 t = k2 t')"
  shows "list_all2 R xs ts \<Longrightarrow> (\<And>x t. R x t \<Longrightarrow> (k1 x \<in> s1 \<longleftrightarrow> k2 t \<in> s2))
         \<Longrightarrow> list_all2 R (firstOcc k1 s1 xs) (firstOcc k2 s2 ts)"
proof (induction xs ts arbitrary: s1 s2 rule: list_all2_induct)
  case Nil show ?case by simp
next
  case (Cons x xs t ts)
  have same: "k1 x \<in> s1 \<longleftrightarrow> k2 t \<in> s2" using Cons.prems Cons.hyps(1) by blast
  show ?case
  proof (cases "k1 x \<in> s1")
    case True
    thus ?thesis using same Cons.IH [of s1 s2] Cons.prems by simp
  next
    case False
    have P': "\<And>x' t'. R x' t' \<Longrightarrow> (k1 x' \<in> insert (k1 x) s1 \<longleftrightarrow> k2 t' \<in> insert (k2 t) s2)"
      using agree [OF _ Cons.hyps(1)] Cons.prems by auto
    from Cons.IH [of "insert (k1 x) s1" "insert (k2 t) s2", OF P']
    show ?thesis using False same Cons.hyps(1) by simp
  qed
qed


lemma sortedKey_eq_iff:
  assumes "distinct [i, j, k]" and "distinct [i', j', k']"
  shows "sortedKey i j k = sortedKey i' j' k' \<longleftrightarrow> {i, j, k} = {i', j', k'}"
proof -
  have "sort [i, j, k] = sort [i', j', k'] \<longleftrightarrow> mset [i, j, k] = mset [i', j', k']"
  proof
    assume "sort [i, j, k] = sort [i', j', k']"
    hence "mset (sort [i, j, k]) = mset (sort [i', j', k'])" by simp
    thus "mset [i, j, k] = mset [i', j', k']" by (simp only: mset_sort)
  next
    assume "mset [i, j, k] = mset [i', j', k']"
    thus "sort [i, j, k] = sort [i', j', k']"
      by (metis mset_sort properties_for_sort sorted_sort)
  qed
  also have "\<dots> \<longleftrightarrow> set [i, j, k] = set [i', j', k']"
    using set_eq_iff_mset_eq_distinct [OF assms] by simp
  finally show ?thesis by (simp add: sortedKey_def)
qed

definition placed :: "real Vec3 list \<Rightarrow> nat \<times> nat \<times> nat \<Rightarrow> real Triangle \<Rightarrow> bool" where
  "placed V x t = (slots3 (\<lambda>v. v) V x t \<and> nondegenerate t)"

lemma placed_nth:
  "placed V (i, j, k) t \<Longrightarrow>
     i < length V \<and> j < length V \<and> k < length V
     \<and> V ! i = v0 t \<and> V ! j = v1 t \<and> V ! k = v2 t \<and> nondegenerate t"
  by (simp add: placed_def slots3_def slot_def)

lemma placed_keys:
  assumes d: "distinct V" and p: "placed V x t" and p': "placed V x' t'"
  shows "(case x of (a, b, c) \<Rightarrow> sortedKey a b c) = (case x' of (a, b, c) \<Rightarrow> sortedKey a b c)
         \<longleftrightarrow> posKey t = posKey t'"
proof -
  obtain i j k where x: "x = (i, j, k)" by (cases x)
  obtain i' j' k' where x': "x' = (i', j', k')" by (cases x')
  from placed_nth [OF p [unfolded x]] have
    b: "i < length V" "j < length V" "k < length V" and
    e: "V ! i = v0 t" "V ! j = v1 t" "V ! k = v2 t" and n: "nondegenerate t" by simp_all
  from placed_nth [OF p' [unfolded x']] have
    b': "i' < length V" "j' < length V" "k' < length V" and
    e': "V ! i' = v0 t'" "V ! j' = v1 t'" "V ! k' = v2 t'" and n': "nondegenerate t'" by simp_all
  have di: "distinct [i, j, k]" using n e by (auto simp: nondegenerate_def)
  have di': "distinct [i', j', k']" using n' e' by (auto simp: nondegenerate_def)
  have inj: "inj_on (\<lambda>q. V ! q) {..<length V}" using d by (simp add: inj_on_nth)
  have "{i, j, k} = {i', j', k'} \<longleftrightarrow> (\<lambda>q. V ! q) ` {i, j, k} = (\<lambda>q. V ! q) ` {i', j', k'}"
    using inj_on_image_eq_iff [OF inj, of "{i, j, k}" "{i', j', k'}"] b b' by auto
  also have "\<dots> \<longleftrightarrow> posKey t = posKey t'" by (simp add: posKey_def e e')
  finally show ?thesis using sortedKey_eq_iff [OF di di'] by (simp add: x x')
qed

lemma rebuildTriangles_placed:
  "list_all2 (placed V) xs ts \<Longrightarrow> rebuildTriangles V xs = map renormal (filter bigEnough ts)"
proof (induction xs ts rule: list_all2_induct)
  case Nil show ?case by simp
next
  case (Cons x xs t ts)
  obtain i j k where x: "x = (i, j, k)" by (cases x)
  from placed_nth [OF Cons.hyps(1) [unfolded x]] have
    e: "V ! i = v0 t" "V ! j = v1 t" "V ! k = v2 t" by simp_all
  show ?case using Cons.IH by (simp add: x e Let_def bigEnough_def renormal_def not_le)
qed

lemma list_all2_and_right:
  "list_all2 P xs ys \<Longrightarrow> (\<forall>y \<in> set ys. Q y) \<Longrightarrow> list_all2 (\<lambda>x y. P x y \<and> Q y) xs ys"
  by (induction xs ys rule: list_all2_induct) auto

text \<open>The loops of \<^verbatim>\<open>cleanMesh\<close>, one after the other, on a list that is not empty.\<close>

lemma cleanMesh_char:
  assumes ne: "tris \<noteq> []"
  shows "\<exists>nverts nm.
           cleanMesh tris =
             (cleaned tris,
              [CHeader,
               CDuplicatesRemoved (length (filter nondegenerate tris)
                                   - length (firstOcc posKey {} (filter nondegenerate tris))),
               CVertices (length tris * 3) nverts (length tris * 3 - nverts),
               CDegenerateRemoved (length (filter (\<lambda>t. \<not> nondegenerate t) tris))]
              @ nm @ [CBeforeAfter (length tris) (length (cleaned tris))])
           \<and> (nm = [] \<or> (\<exists>e. nm = [CNonManifold e]))"
proof -
  obtain M V indexed deg where it: "indexTriangles vless tris ([], []) [] 0 = ((M, V), indexed, deg)"
    by (cases "indexTriangles vless tris ([], []) [] 0") auto
  have ok: "list_all (tri_ok (\<lambda>v. True)) tris" by (simp add: tri_ok_def list_all_iff)
  from indexTriangles_char [OF vless_keyed vt_inv_empty ok it] have
    inv: "vt_inv vless (\<lambda>v. True) (\<lambda>v. v) (M, V)" and
    l: "list_all2 (slots3 (\<lambda>v. v) V) indexed (filter nondegenerate tris)" and
    d: "deg = length (filter (\<lambda>t. \<not> nondegenerate t) tris)"
    by (simp_all add: nondegK_id)
  from inv have dV: "distinct V" by (simp add: vt_inv_def)
  have pl: "list_all2 (placed V) indexed (filter nondegenerate tris)"
    using list_all2_and_right [OF l, of nondegenerate] by (simp add: placed_def [abs_def])
  let ?k1 = "\<lambda>(a, b, c). sortedKey a b c"
  obtain n where u: "uniqueTriangles indexed {} [] 0 = (firstOcc ?k1 {} indexed, n)"
    and nl: "n + length (firstOcc ?k1 {} indexed) = length indexed"
    using uniqueTriangles_firstOcc [of indexed "{}" "[]" 0] by auto
  have fo: "list_all2 (placed V) (firstOcc ?k1 {} indexed)
              (firstOcc posKey {} (filter nondegenerate tris))"
  proof (rule firstOcc_rel [OF _ pl])
    fix x t x' t' assume "placed V x t" "placed V x' t'"
    thus "(?k1 x = ?k1 x') = (posKey t = posKey t')" by (rule placed_keys [OF dV])
  qed simp
  have len1: "length indexed = length (filter nondegenerate tris)"
    using pl by (rule list_all2_lengthD)
  have len2: "length (firstOcc ?k1 {} indexed)
              = length (firstOcc posKey {} (filter nondegenerate tris))"
    using fo by (rule list_all2_lengthD)
  have n: "n = length (filter nondegenerate tris)
               - length (firstOcc posKey {} (filter nondegenerate tris))"
    using nl len1 len2 by simp
  have rb: "rebuildTriangles V (firstOcc ?k1 {} indexed) = cleaned tris"
    using rebuildTriangles_placed [OF fo] by (simp add: cleaned_def)
  let ?e = "countDupEdges (countEdges (firstOcc ?k1 {} indexed) []) 0"
  have "cleanMesh tris =
          (cleaned tris,
           [CHeader, CDuplicatesRemoved n,
            CVertices (length tris * 3) (length V) (length tris * 3 - length V),
            CDegenerateRemoved deg]
           @ (if ?e > 0 then [CNonManifold ?e] else [])
           @ [CBeforeAfter (length tris) (length (cleaned tris))])"
    using ne by (simp add: cleanMesh_def Let_def it u rb)
  thus ?thesis unfolding n d by (intro exI [of _ "length V"] exI [of _ "if ?e > 0 then [CNonManifold ?e] else []"]) auto
qed

lemma cleanMesh_fst: "fst (cleanMesh tris) = cleaned tris"
proof (cases "tris = []")
  case True thus ?thesis by (simp add: cleanMesh_def cleaned_def)
next
  case False
  from cleanMesh_char [OF False] show ?thesis by auto
qed

lemma renormal_simps:
  "v0 (renormal t) = v0 t" "v1 (renormal t) = v1 t" "v2 (renormal t) = v2 t"
  by (simp_all add: renormal_def)

lemma renormal_preserves:
  "nondegenerate (renormal t) = nondegenerate t"
  "posKey (renormal t) = posKey t"
  "bigEnough (renormal t) = bigEnough t"
  "renormal (renormal t) = renormal t"
  by (simp_all add: nondegenerate_def posKey_def bigEnough_def renormal_def)

lemma firstOcc_subset: "set (firstOcc key seen xs) \<subseteq> set xs"
  by (induction xs arbitrary: seen) auto

lemma firstOcc_fresh: "x \<in> set (firstOcc key seen xs) \<Longrightarrow> key x \<notin> seen"
  by (induction xs arbitrary: seen) (auto split: if_splits)

lemma firstOcc_distinct: "distinct (map key (firstOcc key seen xs))"
proof (induction xs arbitrary: seen)
  case Nil show ?case by simp
next
  case (Cons x xs)
  have "key x \<notin> key ` set (firstOcc key (insert (key x) seen) xs)"
  proof
    assume "key x \<in> key ` set (firstOcc key (insert (key x) seen) xs)"
    then obtain y where y: "y \<in> set (firstOcc key (insert (key x) seen) xs)" and e: "key y = key x"
      by auto
    from firstOcc_fresh [OF y] e show False by simp
  qed
  thus ?case using Cons.IH by simp
qed

lemma firstOcc_id:
  "distinct (map key xs) \<Longrightarrow> key ` set xs \<inter> seen = {} \<Longrightarrow> firstOcc key seen xs = xs"
proof (induction xs arbitrary: seen)
  case Nil show ?case by simp
next
  case (Cons x xs)
  from Cons.prems have a: "key x \<notin> seen" and b: "distinct (map key xs)"
    and c: "key ` set xs \<inter> insert (key x) seen = {}" by auto
  show ?case using a Cons.IH [OF b c] by simp
qed

lemma cleaned_props:
  "list_all nondegenerate (cleaned tris)" "list_all bigEnough (cleaned tris)"
  "distinct (map posKey (cleaned tris))"
proof -
  let ?A = "firstOcc posKey {} (filter nondegenerate tris)"
  have "set ?A \<subseteq> set (filter nondegenerate tris)" by (rule firstOcc_subset)
  thus "list_all nondegenerate (cleaned tris)"
    by (auto simp: cleaned_def list_all_iff renormal_preserves)
  show "list_all bigEnough (cleaned tris)"
    by (auto simp: cleaned_def list_all_iff renormal_preserves)
  have "distinct (map posKey (filter bigEnough ?A))"
    using firstOcc_distinct [of posKey "{}" "filter nondegenerate tris"]
    by (rule distinct_map_filter)
  moreover have "map posKey (cleaned tris) = map posKey (filter bigEnough ?A)"
    by (simp add: cleaned_def renormal_preserves comp_def)
  ultimately show "distinct (map posKey (cleaned tris))" by simp
qed

lemma filter_all: "list_all P xs \<Longrightarrow> filter P xs = xs"
  by (induction xs) auto

lemma filter_none: "list_all P xs \<Longrightarrow> filter (\<lambda>x. \<not> P x) xs = []"
  by (induction xs) auto

lemma map_renormal_cleaned: "map renormal (cleaned tris) = cleaned tris"
  by (simp add: cleaned_def renormal_preserves comp_def)

lemma cleaned_idem: "cleaned (cleaned tris) = cleaned tris"
proof -
  let ?o = "cleaned tris"
  have a: "filter nondegenerate ?o = ?o" using cleaned_props(1) by (rule filter_all)
  have b: "firstOcc posKey {} ?o = ?o" using cleaned_props(3) by (rule firstOcc_id) simp
  have c: "filter bigEnough ?o = ?o" using cleaned_props(2) by (rule filter_all)
  show ?thesis unfolding cleaned_def [of "cleaned tris"] a b c by (rule map_renormal_cleaned)
qed

text \<open>
  Claim C8. A second pass of \<^verbatim>\<open>cleanMesh\<close> leaves the list as the first pass made it.
  When that list is empty the second report is the line "No triangles."; otherwise it
  says that no duplicate and no degenerate triangle was removed and that the count before
  and after is the same.
\<close>

theorem cleanMesh_idempotent:
  "fst (cleanMesh (fst (cleanMesh tris))) = fst (cleanMesh tris)
   \<and> (if fst (cleanMesh tris) = []
      then snd (cleanMesh (fst (cleanMesh tris))) = [CNoTriangles]
      else CDuplicatesRemoved 0 \<in> set (snd (cleanMesh (fst (cleanMesh tris))))
         \<and> CDegenerateRemoved 0 \<in> set (snd (cleanMesh (fst (cleanMesh tris))))
         \<and> CBeforeAfter (length (fst (cleanMesh tris))) (length (fst (cleanMesh tris)))
             \<in> set (snd (cleanMesh (fst (cleanMesh tris)))))"
proof -
  let ?o = "cleaned tris"
  have o: "fst (cleanMesh tris) = ?o" by (rule cleanMesh_fst)
  have one: "fst (cleanMesh ?o) = ?o" by (simp add: cleanMesh_fst cleaned_idem)
  have two: "snd (cleanMesh ?o) = [CNoTriangles]" if "?o = []"
    using that by (simp add: cleanMesh_def)
  have three: "CDuplicatesRemoved 0 \<in> set (snd (cleanMesh ?o))
             \<and> CDegenerateRemoved 0 \<in> set (snd (cleanMesh ?o))
             \<and> CBeforeAfter (length ?o) (length ?o) \<in> set (snd (cleanMesh ?o))" if ne: "?o \<noteq> []"
  proof -
    have a: "filter nondegenerate ?o = ?o" using cleaned_props(1) by (rule filter_all)
    have b: "firstOcc posKey {} ?o = ?o" using cleaned_props(3) by (rule firstOcc_id) simp
    have z: "filter (\<lambda>t. \<not> nondegenerate t) ?o = []" using cleaned_props(1) by (rule filter_none)
    from cleanMesh_char [OF ne] obtain nverts nm where
      "cleanMesh ?o =
         (cleaned ?o,
          [CHeader,
           CDuplicatesRemoved (length (filter nondegenerate ?o)
                               - length (firstOcc posKey {} (filter nondegenerate ?o))),
           CVertices (length ?o * 3) nverts (length ?o * 3 - nverts),
           CDegenerateRemoved (length (filter (\<lambda>t. \<not> nondegenerate t) ?o))]
          @ nm @ [CBeforeAfter (length ?o) (length (cleaned ?o))])"
      by blast
    thus ?thesis unfolding a b z cleaned_idem by simp
  qed
  show ?thesis unfolding o using one two three by simp
qed







section \<open>Which positions the merge identifies\<close>










lemma slots_bound:
  "list_all2 (\<lambda>it t. slots3 key V (i0 it, i1 it, i2 it) t) its ts
     \<Longrightarrow> \<forall>it \<in> set its. i0 it < length V \<and> i1 it < length V \<and> i2 it < length V"
  by (induction its ts rule: list_all2_induct) (auto simp: slots3_def slot_def)

text \<open>\<^verbatim>\<open>removeDuplicateVertices\<close> establishes the invariant of the indexed mesh.\<close>

lemma removeDuplicateVertices_wf: "wf_mesh (removeDuplicateVertices vless r)"
proof -
  have ok: "list_all (tri_ok (\<lambda>v. True)) (triangles r)" by (simp add: tri_ok_def list_all_iff)
  obtain M V its where ia: "indexAll vless (triangles r) ([], []) [] = ((M, V), its)"
    by (cases "indexAll vless (triangles r) ([], []) []") auto
  from indexAll_char [OF vless_keyed vt_inv_empty ok ia] have
    l: "list_all2 (\<lambda>it t. slots3 (\<lambda>v. v) V (i0 it, i1 it, i2 it) t) its (triangles r)"
    by simp
  from slots_bound [OF l]
  have "\<forall>it \<in> set its. i0 it < length V \<and> i1 it < length V \<and> i2 it < length V" .
  thus ?thesis by (simp add: wf_mesh_def removeDuplicateVertices_def ia list_all_iff)
qed















section \<open>Invariants of the loop tracing\<close>

text \<open>
  An invariant \<open>I\<close> of the inner loop that every continuing branch keeps, and a property \<open>Q\<close>
  that every exit establishes, give \<open>Q\<close> of the state the loop returns.
\<close>

lemma traceLoop_rule:
  assumes res: "traceLoop nextMap start loop triOnLoop to used calls = (loop', tri', used', calls')"
    and init: "I loop triOnLoop to used calls"
    and exit_start: "\<And>loop tri used calls. I loop tri start used calls \<Longrightarrow> Q loop tri used calls"
    and exit_dead: "\<And>loop tri to used calls. I loop tri to used calls \<Longrightarrow> to \<noteq> start
        \<Longrightarrow> fst (pickNext (omap_get to [] nextMap) to used) = 0 \<Longrightarrow> Q loop tri used calls"
    and push: "\<And>loop tri to used calls nextV nextTri. I loop tri to used calls \<Longrightarrow> to \<noteq> start
        \<Longrightarrow> (nextV, nextTri) \<in> set (omap_get to [] nextMap) \<Longrightarrow> (to, nextV) \<notin> used
        \<Longrightarrow> nextV \<noteq> 0 \<Longrightarrow> nextV \<notin> set loop
        \<Longrightarrow> I (loop @ [nextV]) (tri @ [nextTri]) nextV (insert (to, nextV) used) calls"
    and close: "\<And>loop tri to used calls nextTri. I loop tri to used calls \<Longrightarrow> to \<noteq> start
        \<Longrightarrow> (start, nextTri) \<in> set (omap_get to [] nextMap) \<Longrightarrow> (to, start) \<notin> used
        \<Longrightarrow> start \<noteq> 0 \<Longrightarrow> start \<in> set loop
        \<Longrightarrow> Q loop tri (insert (to, start) used) calls"
    and split: "\<And>loop tri to used calls nextV nextTri. I loop tri to used calls \<Longrightarrow> to \<noteq> start
        \<Longrightarrow> (nextV, nextTri) \<in> set (omap_get to [] nextMap) \<Longrightarrow> (to, nextV) \<notin> used
        \<Longrightarrow> nextV \<noteq> 0 \<Longrightarrow> nextV \<in> set loop \<Longrightarrow> nextV \<noteq> start
        \<Longrightarrow> I (take (findIndex loop nextV + 1) loop) (take (findIndex loop nextV + 1) tri)
              (last (take (findIndex loop nextV + 1) loop)) (insert (to, nextV) used)
              (calls @ [(drop (findIndex loop nextV) loop, tri ! findIndex loop nextV)])"
  shows "Q loop' tri' used' calls'"
proof -
  have "traceLoop nm st loop triOnLoop to used calls = (loop', tri', used', calls')
          \<Longrightarrow> nm = nextMap \<Longrightarrow> st = start \<Longrightarrow> I loop triOnLoop to used calls
          \<Longrightarrow> Q loop' tri' used' calls'" for nm st
  proof (induction nm st loop triOnLoop to used calls rule: traceLoop.induct)
    case (1 nm st loop triOnLoop to used calls)
    from "1.prems"(2,3) have eqs: "nm = nextMap" "st = start" by simp_all
    note I0 = "1.prems"(4)
    note res1 = "1.prems"(1) [unfolded eqs]
    note IH = "1.IH" [unfolded eqs]
    show ?case
    proof (cases "to = start")
      case True
      with res1 have "(loop', tri', used', calls') = (loop, triOnLoop, used, calls)"
        by (simp add: traceLoop.simps [of nextMap start loop triOnLoop to used calls])
      moreover have "Q loop triOnLoop used calls"
        using exit_start [of loop triOnLoop used calls] I0 True by simp
      ultimately show ?thesis by simp
    next
      case ne: False
      obtain nextV nextTri where pk: "pickNext (omap_get to [] nextMap) to used = (nextV, nextTri)"
        by (cases "pickNext (omap_get to [] nextMap) to used")
      show ?thesis
      proof (cases "nextV = 0")
        case True
        with res1 ne pk have "(loop', tri', used', calls') = (loop, triOnLoop, used, calls)"
          by (simp add: traceLoop.simps [of nextMap start loop triOnLoop to used calls])
        moreover have "Q loop triOnLoop used calls"
          using exit_dead [OF I0 ne] pk True by simp
        ultimately show ?thesis by simp
      next
        case nz: False
        from pickNext_picked [OF pk nz] have
          mem: "(nextV, nextTri) \<in> set (omap_get to [] nextMap)" and un: "(to, nextV) \<notin> used"
          by blast+
        show ?thesis
        proof (cases "nextV \<in> set loop")
          case False
          with res1 ne pk nz have r:
            "traceLoop nextMap start (loop @ [nextV]) (triOnLoop @ [nextTri]) nextV
               (insert (to, nextV) used) calls = (loop', tri', used', calls')"
            by (simp add: traceLoop.simps [of nextMap start loop triOnLoop to used calls])
          from IH(1) [OF ne pk [symmetric] nz False r refl refl push [OF I0 ne mem un nz False]]
          show ?thesis .
        next
          case inl: True
          show ?thesis
          proof (cases "nextV = start")
            case True
            with res1 ne pk nz inl have
              "(loop', tri', used', calls') = (loop, triOnLoop, insert (to, start) used, calls)"
              by (simp add: traceLoop.simps [of nextMap start loop triOnLoop to used calls])
            moreover have "Q loop triOnLoop (insert (to, start) used) calls"
              using close [OF I0 ne] mem un nz inl True by simp
            ultimately show ?thesis by simp
          next
            case False
            with res1 ne pk nz inl have r:
              "traceLoop nextMap start (take (findIndex loop nextV + 1) loop)
                 (take (findIndex loop nextV + 1) triOnLoop)
                 (last (take (findIndex loop nextV + 1) loop))
                 (insert (to, nextV) used)
                 (calls @ [(drop (findIndex loop nextV) loop, triOnLoop ! findIndex loop nextV)])
               = (loop', tri', used', calls')"
              by (simp add: traceLoop.simps [of nextMap start loop triOnLoop to used calls] Let_def)
            have inl': "\<not> nextV \<notin> set loop" using inl by simp
            from IH(2) [OF ne pk [symmetric] nz inl' False refl refl refl r refl refl
                  split [OF I0 ne mem un nz inl False]]
            show ?thesis .
          qed
        qed
      qed
    qed
  qed
  from this [OF res refl refl init] show ?thesis .
qed

text \<open>The same for the outer loop, which ends only when every boundary edge is used.\<close>

lemma traceAll_rule:
  assumes res: "traceAll boundaryEdges nextMap used calls = (used', calls')"
    and init: "J used calls"
    and step: "\<And>used calls e loop1 tri1 used1 calls1. J used calls
        \<Longrightarrow> e \<in> set boundaryEdges \<Longrightarrow> (dfrom e, dto e) \<notin> used
        \<Longrightarrow> traceLoop nextMap (dfrom e) [dfrom e, dto e] [triIdx e, triIdx e] (dto e)
              (insert (dfrom e, dto e) used) calls = (loop1, tri1, used1, calls1)
        \<Longrightarrow> J used1 (calls1 @ [(loop1, tri1 ! 0)])"
  shows "J used' calls' \<and> edgePairs boundaryEdges \<subseteq> used'"
proof -
  have "traceAll bes nm used calls = (used', calls') \<Longrightarrow> bes = boundaryEdges \<Longrightarrow> nm = nextMap
          \<Longrightarrow> J used calls \<Longrightarrow> J used' calls' \<and> edgePairs boundaryEdges \<subseteq> used'" for bes nm
  proof (induction bes nm used calls rule: traceAll.induct)
    case (1 bes nm used calls)
    from "1.prems"(2,3) have eqs: "bes = boundaryEdges" "nm = nextMap" by simp_all
    note J0 = "1.prems"(4)
    note res1 = "1.prems"(1) [unfolded eqs]
    note IH = "1.IH" [unfolded eqs]
    show ?case
    proof (cases "firstUnused boundaryEdges used")
      case None
      with res1 have "(used', calls') = (used, calls)"
        by (simp add: traceAll.simps [of boundaryEdges nextMap used calls])
      thus ?thesis using J0 None firstUnused_None [of boundaryEdges used] by simp
    next
      case (Some e)
      obtain loop1 tri1 used1 calls1 where
        tl: "traceLoop nextMap (dfrom e) [dfrom e, dto e] [triIdx e, triIdx e] (dto e)
               (insert (dfrom e, dto e) used) calls = (loop1, tri1, used1, calls1)"
        by (cases "traceLoop nextMap (dfrom e) [dfrom e, dto e] [triIdx e, triIdx e] (dto e)
               (insert (dfrom e, dto e) used) calls") blast
      from res1 Some tl have r:
        "traceAll boundaryEdges nextMap used1 (calls1 @ [(loop1, tri1 ! 0)]) = (used', calls')"
        by (simp add: traceAll.simps [of boundaryEdges nextMap used calls] Let_def
              del: traceLoop.simps traceAll.simps)
      from firstUnused_Some [OF Some] have e: "e \<in> set boundaryEdges" "(dfrom e, dto e) \<notin> used"
        by blast+
      have tl': "traceLoop nextMap (dfrom e) [dfrom e, dto e] [triIdx e, triIdx e]
                   (last [dfrom e, dto e]) (insert (dfrom e, dto e) used) calls
                 = (loop1, tri1, used1, calls1)" using tl by (simp del: traceLoop.simps)
      from IH [OF Some refl refl refl tl' [symmetric] refl refl r refl refl
             step [OF J0 e tl]]
      show ?thesis .
    qed
  qed
  from this [OF res refl refl init] show ?thesis .
qed

subsection \<open>The next-vertex map holds exactly the boundary edges\<close>

definition nextTriples :: "(nat \<times> (nat \<times> nat) list) list \<Rightarrow> (nat \<times> nat \<times> nat) set" where
  "nextTriples nm = set (concat (map (\<lambda>(a, ps). map (\<lambda>p. (a, fst p, snd p)) ps) nm))"

definition edgeTriples :: "DirectedEdge list \<Rightarrow> (nat \<times> nat \<times> nat) set" where
  "edgeTriples es = set (map (\<lambda>e. (dfrom e, dto e, triIdx e)) es)"

lemma nextTriples_simps:
  "nextTriples [] = {}"
  "nextTriples ((a, ps) # nm) = (\<lambda>p. (a, fst p, snd p)) ` set ps \<union> nextTriples nm"
  by (simp_all add: nextTriples_def)

lemma omap_get_nextTriples:
  "p \<in> set (omap_get k [] nm) \<Longrightarrow> (k, fst p, snd p) \<in> nextTriples nm"
proof (induction nm)
  case Nil
  thus ?case by simp
next
  case (Cons q nm)
  obtain a ps where q: "q = (a, ps)" by (cases q)
  show ?case using Cons unfolding q by (cases "k = a") (simp_all add: nextTriples_simps)
qed

lemma nextTriples_update:
  "nextTriples (omap_update k (\<lambda>ps. ps @ [p]) [] nm) = insert (k, fst p, snd p) (nextTriples nm)"
proof (induction nm)
  case Nil
  show ?case by (simp add: nextTriples_simps)
next
  case (Cons q nm)
  obtain a ps where q: "q = (a, ps)" by (cases q)
  show ?case unfolding q using Cons by (auto simp: nextTriples_simps)
qed

lemma nextTriples_buildNextMap:
  "nextTriples (buildNextMap es nm) = nextTriples nm \<union> edgeTriples es"
  by (induction es arbitrary: nm) (auto simp: nextTriples_update edgeTriples_def)

lemma nextTriples_boundary: "nextTriples (buildNextMap es []) = edgeTriples es"
  by (simp add: nextTriples_buildNextMap) (simp add: nextTriples_def)

lemma edgeTriples_pair: "(a, b, t) \<in> edgeTriples es \<Longrightarrow> (a, b) \<in> edgePairs es"
  by (auto simp: edgeTriples_def edgePairs_def)

lemma nextMap_pair:
  assumes "p \<in> set (omap_get k [] (buildNextMap es []))"
  shows "(k, fst p) \<in> edgePairs es"
proof -
  from omap_get_nextTriples [OF assms] have "(k, fst p, snd p) \<in> edgeTriples es"
    by (simp add: nextTriples_boundary)
  thus ?thesis by (rule edgeTriples_pair)
qed

subsection \<open>Every boundary edge is marked used\<close>

lemma traceLoop_used_boundary:
  assumes res: "traceLoop (buildNextMap es []) start loop tri to used calls = (loop', tri', used', calls')"
    and u: "used \<subseteq> edgePairs es"
  shows "used' \<subseteq> edgePairs es"
proof (rule traceLoop_rule [OF res, where I = "\<lambda>loop tri to used calls. used \<subseteq> edgePairs es"
        and Q = "\<lambda>loop tri used calls. used \<subseteq> edgePairs es"])
  show "used \<subseteq> edgePairs es" by (rule u)
next
  fix used :: "(nat \<times> nat) set" and to nextV nextTri
  assume "used \<subseteq> edgePairs es" "(nextV, nextTri) \<in> set (omap_get to [] (buildNextMap es []))"
  thus "insert (to, nextV) used \<subseteq> edgePairs es" using nextMap_pair by fastforce
next
  fix used :: "(nat \<times> nat) set" and to nextTri
  assume "used \<subseteq> edgePairs es" "(start, nextTri) \<in> set (omap_get to [] (buildNextMap es []))"
  thus "insert (to, start) used \<subseteq> edgePairs es" using nextMap_pair by fastforce
next
  fix used :: "(nat \<times> nat) set" and to nextV nextTri
  assume "used \<subseteq> edgePairs es" "(nextV, nextTri) \<in> set (omap_get to [] (buildNextMap es []))"
  thus "insert (to, nextV) used \<subseteq> edgePairs es" using nextMap_pair by fastforce
qed

lemma traceAll_used_boundary:
  assumes res: "traceAll es (buildNextMap es []) {} [] = (used', calls')"
  shows "used' = edgePairs es"
proof -
  have "used' \<subseteq> edgePairs es \<and> edgePairs es \<subseteq> used'"
  proof (rule traceAll_rule [OF res, where J = "\<lambda>used calls. used \<subseteq> edgePairs es"])
    show "{} \<subseteq> edgePairs es" by simp
  next
    fix used :: "(nat \<times> nat) set" and calls e loop1 tri1 used1 calls1
    assume u: "used \<subseteq> edgePairs es" and e: "e \<in> set es"
      and t: "traceLoop (buildNextMap es []) (dfrom e) [dfrom e, dto e] [triIdx e, triIdx e] (dto e)
                (insert (dfrom e, dto e) used) calls = (loop1, tri1, used1, calls1)"
    from e have "(dfrom e, dto e) \<in> edgePairs es" by (auto simp: edgePairs_def)
    with u have "insert (dfrom e, dto e) used \<subseteq> edgePairs es" by simp
    from traceLoop_used_boundary [OF t this] show "used1 \<subseteq> edgePairs es" .
  qed
  thus ?thesis by blast
qed

subsection \<open>The triangle passed with each loop\<close>

text \<open>
  \<open>callOk E (loop, t)\<close>: triangle \<open>t\<close> owns a boundary edge of \<open>E\<close> that is the first edge of
  \<open>loop\<close> or ends in its first vertex.
\<close>

definition callOk :: "(nat \<times> nat \<times> nat) set \<Rightarrow> nat list \<times> nat \<Rightarrow> bool" where
  "callOk E c = (\<exists>a b. (a, b, snd c) \<in> E \<and> (b = fst c ! 0 \<or> (a = fst c ! 0 \<and> b = fst c ! 1)))"

text \<open>
  The invariant of the inner loop: \<open>triOnLoop ! k\<close>, for \<open>k \<ge> 1\<close>, owns the edge by which
  the trace entered \<open>loop ! k\<close>, and \<open>triOnLoop ! 0\<close> owns the first edge.
\<close>

definition pathInv :: "(nat \<times> nat \<times> nat) set \<Rightarrow> nat \<Rightarrow> nat list \<Rightarrow> nat list \<Rightarrow> nat \<Rightarrow> (nat list \<times> nat) list \<Rightarrow> bool" where
  "pathInv E start loop tri to calls =
     (length tri = length loop \<and> 2 \<le> length loop \<and> loop ! 0 = start \<and> last loop = to
      \<and> (loop ! 0, loop ! 1, tri ! 0) \<in> E
      \<and> (\<forall>k. 1 \<le> k \<and> k < length loop \<longrightarrow> (loop ! (k - 1), loop ! k, tri ! k) \<in> E)
      \<and> (\<forall>c \<in> set calls. callOk E c))"

lemma findIndex_less:
  "v \<in> set loop \<Longrightarrow> findIndex loop v < length loop \<and> loop ! findIndex loop v = v"
  unfolding findIndex_def
  by (induction loop) auto

lemma findIndex_pos:
  "loop \<noteq> [] \<Longrightarrow> v \<noteq> loop ! 0 \<Longrightarrow> 1 \<le> findIndex loop v"
  unfolding findIndex_def by (cases loop) auto

lemma pathInv_push:
  assumes I: "pathInv E start loop tri to calls" and e: "(to, nextV, nextTri) \<in> E"
  shows "pathInv E start (loop @ [nextV]) (tri @ [nextTri]) nextV calls"
proof -
  from I have len: "length tri = length loop" and l2: "2 \<le> length loop"
    and s: "loop ! 0 = start" and la: "last loop = to"
    and f: "(loop ! 0, loop ! 1, tri ! 0) \<in> E"
    and k: "\<And>k. 1 \<le> k \<Longrightarrow> k < length loop \<Longrightarrow> (loop ! (k - 1), loop ! k, tri ! k) \<in> E"
    and c: "\<forall>c \<in> set calls. callOk E c"
    unfolding pathInv_def by blast+
  from l2 have ne: "loop \<noteq> []" by auto
  have la': "loop ! (length loop - 1) = to" using la ne by (simp add: last_conv_nth)
  have "(\<forall>k. 1 \<le> k \<and> k < length (loop @ [nextV])
           \<longrightarrow> ((loop @ [nextV]) ! (k - 1), (loop @ [nextV]) ! k, (tri @ [nextTri]) ! k) \<in> E)"
  proof (intro allI impI)
    fix j assume j: "1 \<le> j \<and> j < length (loop @ [nextV])"
    show "((loop @ [nextV]) ! (j - 1), (loop @ [nextV]) ! j, (tri @ [nextTri]) ! j) \<in> E"
    proof (cases "j < length loop")
      case True
      hence "j - 1 < length loop" by simp
      with True j k [of j] len show ?thesis by (simp add: nth_append)
    next
      case False
      with j have jl: "j = length loop" by simp
      have "length loop - 1 < length loop" using l2 by simp
      thus ?thesis using jl e la' len by (simp add: nth_append)
    qed
  qed
  moreover have "(loop @ [nextV]) ! 0 = start" "(loop @ [nextV]) ! 1 = loop ! 1"
    "(tri @ [nextTri]) ! 0 = tri ! 0"
    using s l2 len by (auto simp: nth_append)
  ultimately show ?thesis using len l2 f c s unfolding pathInv_def by simp
qed

lemma pathInv_split:
  assumes I: "pathInv E start loop tri to calls" and e: "(to, nextV, nextTri) \<in> E"
    and inl: "nextV \<in> set loop" and ns: "nextV \<noteq> start"
  shows "pathInv E start (take (findIndex loop nextV + 1) loop) (take (findIndex loop nextV + 1) tri)
           (last (take (findIndex loop nextV + 1) loop))
           (calls @ [(drop (findIndex loop nextV) loop, tri ! findIndex loop nextV)])"
proof -
  let ?i = "findIndex loop nextV"
  from I have len: "length tri = length loop" and l2: "2 \<le> length loop"
    and s: "loop ! 0 = start"
    and f: "(loop ! 0, loop ! 1, tri ! 0) \<in> E"
    and k: "\<And>k. 1 \<le> k \<Longrightarrow> k < length loop \<Longrightarrow> (loop ! (k - 1), loop ! k, tri ! k) \<in> E"
    and c: "\<forall>c \<in> set calls. callOk E c"
    unfolding pathInv_def by blast+
  from l2 have ne: "loop \<noteq> []" by auto
  from findIndex_less [OF inl] have il: "?i < length loop" and iv: "loop ! ?i = nextV" by blast+
  from findIndex_pos [OF ne] ns s have ip: "1 \<le> ?i" by simp
  have lt: "length (take (?i + 1) loop) = ?i + 1" "length (take (?i + 1) tri) = ?i + 1"
    using il len by simp_all
  have "(loop ! (?i - 1), loop ! ?i, tri ! ?i) \<in> E" using k [OF ip il] .
  moreover have "drop ?i loop ! 0 = loop ! ?i" using il by simp
  ultimately have "callOk E (drop ?i loop, tri ! ?i)" unfolding callOk_def by auto
  with c have c': "\<forall>c \<in> set (calls @ [(drop ?i loop, tri ! ?i)]). callOk E c" by simp
  have k': "\<forall>j. 1 \<le> j \<and> j < length (take (?i + 1) loop)
             \<longrightarrow> (take (?i + 1) loop ! (j - 1), take (?i + 1) loop ! j, take (?i + 1) tri ! j) \<in> E"
  proof (intro allI impI)
    fix j assume j: "1 \<le> j \<and> j < length (take (?i + 1) loop)"
    hence jl: "j < length loop" and j1: "j - 1 < ?i + 1" and j2: "j < ?i + 1" using il by auto
    have "take (?i + 1) loop ! (j - 1) = loop ! (j - 1)" "take (?i + 1) loop ! j = loop ! j"
      "take (?i + 1) tri ! j = tri ! j"
      using j1 j2 by (simp_all del: take_Suc_conv_app_nth)
    with jl j k [of j] show "(take (?i + 1) loop ! (j - 1), take (?i + 1) loop ! j, take (?i + 1) tri ! j) \<in> E"
      by simp
  qed
  have "take (?i + 1) loop ! 0 = start" "take (?i + 1) loop ! 1 = loop ! 1"
    "take (?i + 1) tri ! 0 = tri ! 0"
    using s ip by simp_all
  thus ?thesis using lt ip f k' c' s unfolding pathInv_def by simp
qed

text \<open>What every exit of the inner loop leaves.\<close>

definition pathEnd :: "(nat \<times> nat \<times> nat) set \<Rightarrow> nat list \<Rightarrow> nat list \<Rightarrow> (nat list \<times> nat) list \<Rightarrow> bool" where
  "pathEnd E loop tri calls =
     (length tri = length loop \<and> 2 \<le> length loop \<and> (loop ! 0, loop ! 1, tri ! 0) \<in> E
      \<and> (\<forall>c \<in> set calls. callOk E c))"

lemma pathInv_end: "pathInv E start loop tri to calls \<Longrightarrow> pathEnd E loop tri calls"
  unfolding pathInv_def pathEnd_def by blast

lemma traceLoop_path:
  assumes res: "traceLoop (buildNextMap es []) start loop tri to used calls = (loop', tri', used', calls')"
    and I: "pathInv (edgeTriples es) start loop tri to calls"
  shows "pathEnd (edgeTriples es) loop' tri' calls'"
proof (rule traceLoop_rule [OF res,
        where I = "\<lambda>loop tri to used calls. pathInv (edgeTriples es) start loop tri to calls"
        and Q = "\<lambda>loop tri used calls. pathEnd (edgeTriples es) loop tri calls"])
  show "pathInv (edgeTriples es) start loop tri to calls" by (rule I)
next
  fix loop tri used calls
  assume "pathInv (edgeTriples es) start loop tri start calls"
  thus "pathEnd (edgeTriples es) loop tri calls" by (rule pathInv_end)
next
  fix loop tri to calls
  assume "pathInv (edgeTriples es) start loop tri to calls"
  thus "pathEnd (edgeTriples es) loop tri calls" by (rule pathInv_end)
next
  fix loop tri to calls nextV nextTri
  assume i: "pathInv (edgeTriples es) start loop tri to calls"
    and m: "(nextV, nextTri) \<in> set (omap_get to [] (buildNextMap es []))"
  from omap_get_nextTriples [OF m] have "(to, nextV, nextTri) \<in> edgeTriples es"
    by (simp add: nextTriples_boundary)
  from pathInv_push [OF i this]
  show "pathInv (edgeTriples es) start (loop @ [nextV]) (tri @ [nextTri]) nextV calls" .
next
  fix loop tri to calls nextTri
  assume "pathInv (edgeTriples es) start loop tri to calls"
  thus "pathEnd (edgeTriples es) loop tri calls" by (rule pathInv_end)
next
  fix loop tri to calls nextV nextTri
  assume i: "pathInv (edgeTriples es) start loop tri to calls"
    and m: "(nextV, nextTri) \<in> set (omap_get to [] (buildNextMap es []))"
    and inl: "nextV \<in> set loop" and ns: "nextV \<noteq> start"
  from omap_get_nextTriples [OF m] have "(to, nextV, nextTri) \<in> edgeTriples es"
    by (simp add: nextTriples_boundary)
  from pathInv_split [OF i this inl ns]
  show "pathInv (edgeTriples es) start (take (findIndex loop nextV + 1) loop)
          (take (findIndex loop nextV + 1) tri) (last (take (findIndex loop nextV + 1) loop))
          (calls @ [(drop (findIndex loop nextV) loop, tri ! findIndex loop nextV)])" .
qed

lemma traceAll_calls:
  assumes res: "traceAll es (buildNextMap es []) {} [] = (used', calls')"
  shows "\<forall>c \<in> set calls'. callOk (edgeTriples es) c"
proof -
  have "(\<forall>c \<in> set calls'. callOk (edgeTriples es) c) \<and> edgePairs es \<subseteq> used'"
  proof (rule traceAll_rule [OF res, where J = "\<lambda>used calls. \<forall>c \<in> set calls. callOk (edgeTriples es) c"])
    show "\<forall>c \<in> set []. callOk (edgeTriples es) c" by simp
  next
    fix used :: "(nat \<times> nat) set" and calls e loop1 tri1 used1 calls1
    assume c: "\<forall>c \<in> set calls. callOk (edgeTriples es) c" and e: "e \<in> set es"
      and t: "traceLoop (buildNextMap es []) (dfrom e) [dfrom e, dto e] [triIdx e, triIdx e] (dto e)
                (insert (dfrom e, dto e) used) calls = (loop1, tri1, used1, calls1)"
    from e have "(dfrom e, dto e, triIdx e) \<in> edgeTriples es" by (auto simp: edgeTriples_def)
    hence "pathInv (edgeTriples es) (dfrom e) [dfrom e, dto e] [triIdx e, triIdx e] (dto e) calls"
      using c unfolding pathInv_def by simp
    from traceLoop_path [OF t this] have pe: "pathEnd (edgeTriples es) loop1 tri1 calls1" .
    hence "callOk (edgeTriples es) (loop1, tri1 ! 0)" unfolding pathEnd_def callOk_def by auto
    with pe show "\<forall>c \<in> set (calls1 @ [(loop1, tri1 ! 0)]). callOk (edgeTriples es) c"
      unfolding pathEnd_def by simp
  qed
  thus ?thesis by blast
qed

subsection \<open>The owner of a boundary edge\<close>

text \<open>
  \<open>ownsEdge tris e\<close>: \<open>triIdx e\<close> is a triangle of the mesh and \<open>e\<close> is one of its three
  directed edges.
\<close>

definition ownsEdge :: "IndexedTri list \<Rightarrow> DirectedEdge \<Rightarrow> bool" where
  "ownsEdge tris e =
     (triIdx e < length tris
      \<and> (dfrom e, dto e) \<in> {(i0 (tris ! triIdx e), i1 (tris ! triIdx e)),
                              (i1 (tris ! triIdx e), i2 (tris ! triIdx e)),
                              (i2 (tris ! triIdx e), i0 (tris ! triIdx e))})"

definition mapEdges :: "((nat \<times> nat) \<times> DirectedEdge list) list \<Rightarrow> DirectedEdge set" where
  "mapEdges em = (\<Union>p \<in> set em. set (snd p))"

lemma mapEdges_simps:
  "mapEdges [] = {}" "mapEdges ((k, es) # em) = set es \<union> mapEdges em"
  by (simp_all add: mapEdges_def)

lemma mapEdges_pushEdge: "mapEdges (pushEdge k e em) = insert e (mapEdges em)"
proof (induction em)
  case Nil
  show ?case by (simp add: pushEdge_def mapEdges_simps)
next
  case (Cons q em)
  obtain k' es where q: "q = (k', es)" by (cases q)
  show ?case unfolding q using Cons by (auto simp: pushEdge_def mapEdges_simps)
qed

lemma buildEdgeToDirected_edges:
  assumes "\<forall>e \<in> mapEdges em. ownsEdge tris e \<and> triIdx e \<in> S" and "set tis \<subseteq> S"
  shows "\<forall>e \<in> mapEdges (buildEdgeToDirected tris tis em). ownsEdge tris e \<and> triIdx e \<in> S"
  using assms
proof (induction tis arbitrary: em)
  case Nil
  thus ?case by simp
next
  case (Cons ti tis)
  from Cons.prems(2) have ti: "ti \<in> S" and tis: "set tis \<subseteq> S" by simp_all
  show ?case
  proof (cases "ti \<ge> length tris")
    case True
    thus ?thesis using Cons.IH [OF Cons.prems(1) tis] by simp
  next
    case False
    let ?t = "tris ! ti"
    let ?em = "pushEdge (edgeKey (i2 ?t) (i0 ?t)) \<lparr>dfrom = i2 ?t, dto = i0 ?t, triIdx = ti\<rparr>
                 (pushEdge (edgeKey (i1 ?t) (i2 ?t)) \<lparr>dfrom = i1 ?t, dto = i2 ?t, triIdx = ti\<rparr>
                   (pushEdge (edgeKey (i0 ?t) (i1 ?t)) \<lparr>dfrom = i0 ?t, dto = i1 ?t, triIdx = ti\<rparr> em))"
    have "\<forall>e \<in> mapEdges ?em. ownsEdge tris e \<and> triIdx e \<in> S"
      using Cons.prems(1) False ti by (auto simp: mapEdges_pushEdge ownsEdge_def)
    from Cons.IH [OF this tis] show ?thesis using False by (simp add: Let_def)
  qed
qed

lemma collectBoundary_edges: "set (collectBoundary em) \<subseteq> mapEdges em"
proof (induction em)
  case Nil
  show ?case by simp
next
  case (Cons q em)
  obtain k es where q: "q = (k, es)" by (cases q)
  show ?case
  proof (cases "length es = 1")
    case False
    thus ?thesis unfolding q using Cons by (auto simp: mapEdges_simps)
  next
    case True
    then obtain e where es: "es = [e]" by (cases es) auto
    show ?thesis unfolding q es using Cons by (auto simp: mapEdges_simps)
  qed
qed

lemma boundary_edge_owner:
  assumes "e \<in> set (boundaryEdgesOf m triangleIndices)"
  shows "ownsEdge (indexedTriangles m) e \<and> triIdx e \<in> set triangleIndices"
proof -
  have "\<forall>e \<in> mapEdges (buildEdgeToDirected (indexedTriangles m) triangleIndices []).
          ownsEdge (indexedTriangles m) e \<and> triIdx e \<in> set triangleIndices"
    by (rule buildEdgeToDirected_edges) (simp_all add: mapEdges_simps)
  thus ?thesis using assms collectBoundary_edges unfolding boundaryEdgesOf_def by blast
qed

subsection \<open>\<^verbatim>\<open>addCaps\<close> returns the subset followed by the caps\<close>

lemma subsetTriangles_char:
  "\<exists>ts. subsetTriangles m triangleIndices out = Some (out @ ts)
        \<and> map Some ts = map (getTriangle m)
                           (filter (\<lambda>i. i < length (indexedTriangles m)) triangleIndices)"
proof (induction triangleIndices arbitrary: out)
  case Nil
  show ?case by simp
next
  case (Cons i rest)
  show ?case
  proof (cases "i < length (indexedTriangles m)")
    case False
    thus ?thesis using Cons [of out] by simp
  next
    case True
    then obtain t where t: "getTriangle m i = Some t" using getTriangle_Some by blast
    from Cons [of "out @ [t]"] obtain ts where
      "subsetTriangles m rest (out @ [t]) = Some ((out @ [t]) @ ts)"
      "map Some ts = map (getTriangle m) (filter (\<lambda>i. i < length (indexedTriangles m)) rest)"
      by blast
    hence "subsetTriangles m (i # rest) out = Some (out @ (t # ts))
           \<and> map Some (t # ts) = map (getTriangle m)
                                   (filter (\<lambda>i. i < length (indexedTriangles m)) (i # rest))"
      using True t by simp
    thus ?thesis by blast
  qed
qed

lemma capOneLoop_Some:
  assumes "t < length (indexedTriangles m)"
  shows "\<exists>caps. capOneLoop m loop t = Some caps"
proof -
  from getTriangle_Some [OF assms] obtain adj where "getTriangle m t = Some adj" by blast
  thus ?thesis by (simp add: capOneLoop_def Let_def)
qed

lemma capLoops_char:
  assumes "\<forall>c \<in> set calls. snd c < length (indexedTriangles m)"
  shows "\<exists>capss. capLoops m calls out = Some (out @ concat capss)
           \<and> list_all2 (\<lambda>c caps. capOneLoop m (fst c) (snd c) = Some caps) calls capss"
  using assms
proof (induction calls arbitrary: out)
  case Nil
  have "capLoops m [] out = Some (out @ concat [])
        \<and> list_all2 (\<lambda>c caps. capOneLoop m (fst c) (snd c) = Some caps) [] []" by simp
  thus ?case by blast
next
  case (Cons c calls)
  obtain loop t where c: "c = (loop, t)" by (cases c)
  from Cons.prems c have t: "t < length (indexedTriangles m)"
    and rest: "\<forall>c \<in> set calls. snd c < length (indexedTriangles m)" by simp_all
  from capOneLoop_Some [OF t] obtain caps where caps: "capOneLoop m loop t = Some caps" by blast
  from Cons.IH [OF rest, of "out @ caps"] obtain capss where
    r: "capLoops m calls (out @ caps) = Some ((out @ caps) @ concat capss)"
    and l: "list_all2 (\<lambda>c caps. capOneLoop m (fst c) (snd c) = Some caps) calls capss" by blast
  have "capLoops m (c # calls) out = Some (out @ concat (caps # capss))
        \<and> list_all2 (\<lambda>c caps. capOneLoop m (fst c) (snd c) = Some caps) (c # calls) (caps # capss)"
    using r l caps c by simp
  thus ?case by blast
qed

text \<open>The calls the trace makes name triangles of the subset.\<close>

lemma traceAll_calls_valid:
  assumes res: "traceAll (boundaryEdgesOf m triangleIndices)
                  (buildNextMap (boundaryEdgesOf m triangleIndices) []) {} [] = (used', calls')"
    and c: "c \<in> set calls'"
  shows "snd c < length (indexedTriangles m) \<and> snd c \<in> set triangleIndices"
proof -
  from traceAll_calls [OF res] c have "callOk (edgeTriples (boundaryEdgesOf m triangleIndices)) c"
    by blast
  then obtain a b where "(a, b, snd c) \<in> edgeTriples (boundaryEdgesOf m triangleIndices)"
    unfolding callOk_def by blast
  then obtain e where e: "e \<in> set (boundaryEdgesOf m triangleIndices)" and t: "triIdx e = snd c"
    unfolding edgeTriples_def by auto
  from boundary_edge_owner [OF e] t show ?thesis by (simp add: ownsEdge_def)
qed

lemma addCaps_char:
  "\<exists>ts caps. addCaps m triangleIndices = Some (ts @ caps)
        \<and> map Some ts = map (getTriangle m)
                           (filter (\<lambda>i. i < length (indexedTriangles m)) triangleIndices)"
proof -
  from subsetTriangles_char [of m triangleIndices "[]"] obtain ts where
    st: "subsetTriangles m triangleIndices [] = Some ts"
    and ts: "map Some ts = map (getTriangle m)
                             (filter (\<lambda>i. i < length (indexedTriangles m)) triangleIndices)"
    by auto
  let ?bes = "boundaryEdgesOf m triangleIndices"
  obtain used' calls' where tr: "traceAll ?bes (buildNextMap ?bes []) {} [] = (used', calls')"
    by (cases "traceAll ?bes (buildNextMap ?bes []) {} []")
  have "\<forall>c \<in> set calls'. snd c < length (indexedTriangles m)"
    using traceAll_calls_valid [OF tr] by blast
  from capLoops_char [OF this, of ts] obtain capss where
    cl: "capLoops m calls' ts = Some (ts @ concat capss)" by blast
  have "\<exists>caps. addCaps m triangleIndices = Some (ts @ caps)"
  proof (cases "vertices m = [] \<or> ?bes = []")
    case True
    hence "addCaps m triangleIndices = Some (ts @ [])"
      by (auto simp: addCaps_def st Let_def)
    thus ?thesis by blast
  next
    case False
    hence "addCaps m triangleIndices = Some (ts @ concat capss)"
      using tr cl by (simp add: addCaps_def st Let_def del: traceAll.simps)
    thus ?thesis by blast
  qed
  thus ?thesis using ts by blast
qed

section \<open>The caps of \<^verbatim>\<open>computeFluidMesh\<close>\<close>

lemma isEvenHit_Some:
  assumes i: "i < length (indexedTriangles m)"
  shows "\<exists>b. isEvenHit m originOffset tMin tEps i = Some b"
proof -
  obtain tri where tri: "getTriangle m i = Some tri" using getTriangle_Some [OF i] by blast
  have ch: "collectHits m i ro rd tMin [0..<length (indexedTriangles m)] [] \<noteq> None" for ro rd
    using collectHits_eq [of "[0..<length (indexedTriangles m)]" m i ro rd tMin "[]"] by simp
  show ?thesis
    unfolding isEvenHit_def tri option.case Let_def
    by (simp add: ch split: option.split)
qed

lemma evenHitTriangles_char:
  "evenHitTriangles m originOffset tMin tEps
     = Some (filter (\<lambda>i. isEvenHit m originOffset tMin tEps i = Some True)
               [0..<length (indexedTriangles m)])"
proof -
  have "evenHitLoop m originOffset tMin tEps [0..<length (indexedTriangles m)] []
        = Some ([] @ filter (\<lambda>i. isEvenHit m originOffset tMin tEps i = Some True)
                       [0..<length (indexedTriangles m)])"
  proof (rule evenHitLoop_filter)
    fix i assume "i \<in> set [0..<length (indexedTriangles m)]"
    hence "i < length (indexedTriangles m)" by simp
    from isEvenHit_Some [OF this] obtain b where "isEvenHit m originOffset tMin tEps i = Some b"
      by blast
    thus "isEvenHit m originOffset tMin tEps i
          = Some (isEvenHit m originOffset tMin tEps i = Some True)" by simp
  qed
  thus ?thesis by (simp add: evenHitTriangles_def)
qed

text \<open>
  Claim C4. \<^verbatim>\<open>computeFluidMesh\<close> always returns. \<^verbatim>\<open>addCaps\<close> gives the triangles of the
  even-hit subset, one for each index, followed by the caps. The list handed to
  \<^verbatim>\<open>cleanMesh\<close> is the subset unchanged followed by every cap with \<open>v1\<close> and \<open>v2\<close> swapped
  and its normal negated, and the triangles \<^verbatim>\<open>cleanMesh\<close> leaves are triangles of that
  list, corners in the same order, with the normal recomputed from the corners.
\<close>

theorem caps_flipped_before_clean:
  "\<exists>ev ts caps kept.
      evenHitTriangles m originOffset tMin tEps = Some ev
    \<and> addCaps m ev = Some (ts @ caps)
    \<and> length ts = length ev
    \<and> map Some ts = map (getTriangle m) ev
    \<and> fluidBeforeClean m originOffset tMin tEps = Some (ts @ map flipTriangle caps)
    \<and> map v0 (map flipTriangle caps) = map v0 caps
    \<and> map v1 (map flipTriangle caps) = map v2 caps
    \<and> map v2 (map flipTriangle caps) = map v1 caps
    \<and> map normal (map flipTriangle caps) = map (\<lambda>t. vneg (normal t)) caps
    \<and> computeFluidMesh m originOffset tMin tEps = Some (cleanMesh (ts @ map flipTriangle caps))
    \<and> fst (cleanMesh (ts @ map flipTriangle caps)) = map renormal kept
    \<and> set kept \<subseteq> set (ts @ map flipTriangle caps)
    \<and> map v0 (map renormal kept) = map v0 kept
    \<and> map v1 (map renormal kept) = map v1 kept
    \<and> map v2 (map renormal kept) = map v2 kept"
proof -
  let ?n = "length (indexedTriangles m)"
  let ?ev = "filter (\<lambda>i. isEvenHit m originOffset tMin tEps i = Some True) [0..<?n]"
  have ev: "evenHitTriangles m originOffset tMin tEps = Some ?ev" by (rule evenHitTriangles_char)
  have valid: "filter (\<lambda>i. i < ?n) ?ev = ?ev" by (rule filter_True) simp
  from addCaps_char [of m ?ev] obtain ts caps where
    ac: "addCaps m ?ev = Some (ts @ caps)" and ts: "map Some ts = map (getTriangle m) ?ev"
    unfolding valid by blast
  from ts have len: "length ts = length ?ev" using length_map by metis
  let ?fluid = "ts @ map flipTriangle caps"
  let ?kept = "filter bigEnough (firstOcc posKey {} (filter nondegenerate ?fluid))"
  have fb: "fluidBeforeClean m originOffset tMin tEps = Some ?fluid"
    by (simp add: fluidBeforeClean_def ev ac len [symmetric])
  have cf: "computeFluidMesh m originOffset tMin tEps = Some (cleanMesh ?fluid)"
    by (simp add: computeFluidMesh_def fb)
  have cm: "fst (cleanMesh ?fluid) = map renormal ?kept"
    by (simp add: cleanMesh_fst cleaned_def)
  have "set (firstOcc posKey {} (filter nondegenerate ?fluid)) \<subseteq> set (filter nondegenerate ?fluid)"
    by (rule firstOcc_subset)
  hence sub: "set ?kept \<subseteq> set ?fluid" by auto
  have fl: "map v0 (map flipTriangle caps) = map v0 caps"
    "map v1 (map flipTriangle caps) = map v2 caps"
    "map v2 (map flipTriangle caps) = map v1 caps"
    "map normal (map flipTriangle caps) = map (\<lambda>t. vneg (normal t)) caps"
    by (simp_all add: flipTriangle_def)
  have rn: "map v0 (map renormal ?kept) = map v0 ?kept"
    "map v1 (map renormal ?kept) = map v1 ?kept"
    "map v2 (map renormal ?kept) = map v2 ?kept"
    by (simp_all add: renormal_simps)
  from ev ac len ts fb fl cf cm sub rn show ?thesis by blast
qed

section \<open>What the trace consumes\<close>

text \<open>
  The edges \<^verbatim>\<open>capOneLoop\<close> walks on a path: from \<^verbatim>\<open>loop[i]\<close> to
  \<^verbatim>\<open>loop[(i + 1) % loop.size()]\<close>. The last of them closes the path.
\<close>

definition cycPairs :: "nat list \<Rightarrow> (nat \<times> nat) set" where
  "cycPairs loop = set (map (\<lambda>i. (loop ! i, loop ! ((i + 1) mod length loop))) [0..<length loop])"

text \<open>The edges between neighbours of a path, without the closing one.\<close>

definition linPairs :: "nat list \<Rightarrow> (nat \<times> nat) set" where
  "linPairs loop = set (map (\<lambda>i. (loop ! i, loop ! (i + 1))) [0..<length loop - 1])"

definition covered :: "(nat list \<times> nat) list \<Rightarrow> (nat \<times> nat) set" where
  "covered calls = (\<Union>c \<in> set calls. cycPairs (fst c))"

lemma cyc_iff:
  "p \<in> cycPairs loop \<longleftrightarrow> (\<exists>i < length loop. p = (loop ! i, loop ! ((i + 1) mod length loop)))"
  unfolding cycPairs_def by auto

lemma lin_iff:
  "p \<in> linPairs loop \<longleftrightarrow> (\<exists>i. i + 1 < length loop \<and> p = (loop ! i, loop ! (i + 1)))"
proof -
  have "(i < length loop - 1) = (i + 1 < length loop)" for i by auto
  thus ?thesis unfolding linPairs_def by (auto simp: image_iff)
qed

lemma lin_sub_cyc: "linPairs loop \<subseteq> cycPairs loop"
proof
  fix p assume "p \<in> linPairs loop"
  then obtain i where i: "i + 1 < length loop" and p: "p = (loop ! i, loop ! (i + 1))"
    unfolding lin_iff by blast
  from i have "(i + 1) mod length loop = i + 1" by simp
  with i p have "i < length loop \<and> p = (loop ! i, loop ! ((i + 1) mod length loop))" by simp
  thus "p \<in> cycPairs loop" unfolding cyc_iff by blast
qed

lemma last_first_cyc:
  assumes "loop \<noteq> []"
  shows "(last loop, loop ! 0) \<in> cycPairs loop"
proof -
  let ?i = "length loop - 1"
  from assms have i: "?i < length loop" and m: "(?i + 1) mod length loop = 0" by simp_all
  have "last loop = loop ! ?i" using assms by (rule last_conv_nth)
  with i m have "?i < length loop \<and> (last loop, loop ! 0) = (loop ! ?i, loop ! ((?i + 1) mod length loop))"
    by simp
  thus ?thesis unfolding cyc_iff by blast
qed

lemma lin_push:
  assumes "loop \<noteq> []"
  shows "insert (last loop, v) (linPairs loop) \<subseteq> linPairs (loop @ [v])"
proof -
  have "(last loop, v) \<in> linPairs (loop @ [v])"
  proof -
    let ?i = "length loop - 1"
    from assms have "?i + 1 < length (loop @ [v])" by simp
    moreover have "(loop @ [v]) ! ?i = last loop" using assms by (simp add: nth_append last_conv_nth)
    moreover have "(loop @ [v]) ! (?i + 1) = v" using assms by (simp add: nth_append)
    ultimately show ?thesis unfolding lin_iff by metis
  qed
  moreover have "linPairs loop \<subseteq> linPairs (loop @ [v])"
  proof
    fix p assume "p \<in> linPairs loop"
    then obtain i where i: "i + 1 < length loop" and p: "p = (loop ! i, loop ! (i + 1))"
      unfolding lin_iff by blast
    from i have "i < length loop" by simp
    with i p have "i + 1 < length (loop @ [v]) \<and> p = ((loop @ [v]) ! i, (loop @ [v]) ! (i + 1))"
      by (simp add: nth_append)
    thus "p \<in> linPairs (loop @ [v])" unfolding lin_iff by blast
  qed
  ultimately show ?thesis by simp
qed

lemma lin_split:
  assumes k: "k < length loop"
  shows "linPairs loop \<subseteq> linPairs (take (k + 1) loop) \<union> cycPairs (drop k loop)"
proof
  fix p assume "p \<in> linPairs loop"
  then obtain i where i: "i + 1 < length loop" and p: "p = (loop ! i, loop ! (i + 1))"
    unfolding lin_iff by blast
  show "p \<in> linPairs (take (k + 1) loop) \<union> cycPairs (drop k loop)"
  proof (cases "i + 1 \<le> k")
    case True
    hence a: "i < k + 1" and b: "i + 1 < k + 1" by simp_all
    have "take (k + 1) loop ! i = loop ! i" "take (k + 1) loop ! (i + 1) = loop ! (i + 1)"
      using a b by (simp_all del: take_Suc_conv_app_nth)
    moreover have "i + 1 < length (take (k + 1) loop)" using True k by simp
    ultimately have "p \<in> linPairs (take (k + 1) loop)" unfolding lin_iff using p by metis
    thus ?thesis by simp
  next
    case False
    hence ki: "k \<le> i" by simp
    have "(i - k) + 1 < length (drop k loop)" using i ki by simp
    moreover have "drop k loop ! (i - k) = loop ! i" using i ki by simp
    moreover have "drop k loop ! ((i - k) + 1) = loop ! (i + 1)" using i ki by simp
    ultimately have "p \<in> linPairs (drop k loop)" unfolding lin_iff using p by metis
    thus ?thesis using lin_sub_cyc by blast
  qed
qed

lemma traceLoop_covered:
  assumes res: "traceLoop nextMap start loop tri to used calls = (loop', tri', used', calls')"
    and ne: "loop \<noteq> []" and la: "last loop = to" and st: "loop ! 0 = start"
    and u: "used \<subseteq> linPairs loop \<union> covered calls"
  shows "used' \<subseteq> cycPairs loop' \<union> covered calls'"
proof (rule traceLoop_rule [OF res,
        where I = "\<lambda>loop tri to used calls. loop \<noteq> [] \<and> last loop = to \<and> loop ! 0 = start
                     \<and> used \<subseteq> linPairs loop \<union> covered calls"
        and Q = "\<lambda>loop tri used calls. used \<subseteq> cycPairs loop \<union> covered calls"])
  show "loop \<noteq> [] \<and> last loop = to \<and> loop ! 0 = start \<and> used \<subseteq> linPairs loop \<union> covered calls"
    using ne la st u by simp
next
  fix loop :: "nat list" and used calls
  assume "loop \<noteq> [] \<and> last loop = start \<and> loop ! 0 = start \<and> used \<subseteq> linPairs loop \<union> covered calls"
  thus "used \<subseteq> cycPairs loop \<union> covered calls" using lin_sub_cyc [of loop] by blast
next
  fix loop :: "nat list" and to used calls
  assume "loop \<noteq> [] \<and> last loop = to \<and> loop ! 0 = start \<and> used \<subseteq> linPairs loop \<union> covered calls"
  thus "used \<subseteq> cycPairs loop \<union> covered calls" using lin_sub_cyc [of loop] by blast
next
  fix loop :: "nat list" and tri :: "nat list" and to used calls nextV and nextTri :: nat
  assume i: "loop \<noteq> [] \<and> last loop = to \<and> loop ! 0 = start \<and> used \<subseteq> linPairs loop \<union> covered calls"
  hence n: "loop \<noteq> []" by simp
  have "(loop @ [nextV]) ! 0 = loop ! 0" using n by (simp add: nth_append)
  thus "loop @ [nextV] \<noteq> [] \<and> last (loop @ [nextV]) = nextV \<and> (loop @ [nextV]) ! 0 = start
        \<and> insert (to, nextV) used \<subseteq> linPairs (loop @ [nextV]) \<union> covered calls"
    using i lin_push [OF n, of nextV] by auto
next
  fix loop :: "nat list" and to used calls
  assume i: "loop \<noteq> [] \<and> last loop = to \<and> loop ! 0 = start \<and> used \<subseteq> linPairs loop \<union> covered calls"
  hence "(to, start) \<in> cycPairs loop" using last_first_cyc [of loop] by auto
  thus "insert (to, start) used \<subseteq> cycPairs loop \<union> covered calls"
    using i lin_sub_cyc [of loop] by blast
next
  fix loop :: "nat list" and tri :: "nat list" and to used calls nextV
  assume i: "loop \<noteq> [] \<and> last loop = to \<and> loop ! 0 = start \<and> used \<subseteq> linPairs loop \<union> covered calls"
    and inl: "nextV \<in> set loop"
  let ?k = "findIndex loop nextV"
  from findIndex_less [OF inl] have k: "?k < length loop" and v: "loop ! ?k = nextV" by blast+
  have dn: "drop ?k loop \<noteq> []" using k by simp
  have "last (drop ?k loop) = to" using i k by simp
  moreover have "drop ?k loop ! 0 = nextV" using k v by simp
  ultimately have cl: "(to, nextV) \<in> cycPairs (drop ?k loop)" using last_first_cyc [OF dn] by simp
  have cov: "covered (calls @ [(drop ?k loop, tri ! ?k)]) = covered calls \<union> cycPairs (drop ?k loop)"
    by (auto simp: covered_def)
  have "take (?k + 1) loop \<noteq> []" using i by (cases loop) auto
  moreover have "take (?k + 1) loop ! 0 = start" using i by simp
  moreover have "insert (to, nextV) used
                 \<subseteq> linPairs (take (?k + 1) loop) \<union> covered (calls @ [(drop ?k loop, tri ! ?k)])"
    unfolding cov using i cl lin_split [OF k] by blast
  ultimately show "take (?k + 1) loop \<noteq> []
        \<and> last (take (?k + 1) loop) = last (take (?k + 1) loop)
        \<and> take (?k + 1) loop ! 0 = start
        \<and> insert (to, nextV) used
           \<subseteq> linPairs (take (?k + 1) loop) \<union> covered (calls @ [(drop ?k loop, tri ! ?k)])"
    by simp
qed

lemma traceAll_covered:
  assumes res: "traceAll es nextMap {} [] = (used', calls')"
  shows "edgePairs es \<subseteq> covered calls'"
proof -
  have "used' \<subseteq> covered calls' \<and> edgePairs es \<subseteq> used'"
  proof (rule traceAll_rule [OF res, where J = "\<lambda>used calls. used \<subseteq> covered calls"])
    show "{} \<subseteq> covered []" by simp
  next
    fix used :: "(nat \<times> nat) set" and calls e loop1 tri1 used1 calls1
    assume u: "used \<subseteq> covered calls"
      and t: "traceLoop nextMap (dfrom e) [dfrom e, dto e] [triIdx e, triIdx e] (dto e)
                (insert (dfrom e, dto e) used) calls = (loop1, tri1, used1, calls1)"
    have "(dfrom e, dto e) \<in> linPairs [dfrom e, dto e]" by (simp add: linPairs_def)
    with u have "insert (dfrom e, dto e) used \<subseteq> linPairs [dfrom e, dto e] \<union> covered calls" by blast
    from traceLoop_covered [OF t _ _ _ this]
    have "used1 \<subseteq> cycPairs loop1 \<union> covered calls1" by simp
    thus "used1 \<subseteq> covered (calls1 @ [(loop1, tri1 ! 0)])" by (auto simp: covered_def)
  qed
  thus ?thesis by blast
qed

text \<open>
  Claim C2, amended. For every subset the tracing ends and \<^verbatim>\<open>addCaps\<close> returns. When the
  tracing ends, \<^verbatim>\<open>used\<close> is exactly the set of boundary edges of the subset, and every
  boundary edge joins two neighbours, or the last vertex and the first, of a vertex path
  passed to \<^verbatim>\<open>capOneLoop\<close>. Every traced path is passed to \<^verbatim>\<open>capOneLoop\<close>, whether
  the trace closed or met a dead end, and the output is the subset followed by the caps
  of these calls in order; a path of two vertices gets no caps.
\<close>

theorem tracing_consumes_boundary_edges:
  "\<exists>calls ts capss.
      traceAll (boundaryEdgesOf m triangleIndices)
        (buildNextMap (boundaryEdgesOf m triangleIndices) []) {} []
        = (edgePairs (boundaryEdgesOf m triangleIndices), calls)
    \<and> edgePairs (boundaryEdgesOf m triangleIndices) \<subseteq> covered calls
    \<and> subsetTriangles m triangleIndices [] = Some ts
    \<and> list_all2 (\<lambda>c caps. capOneLoop m (fst c) (snd c) = Some caps) calls capss
    \<and> (\<forall>p q t. capOneLoop m [p, q] t = Some [])
    \<and> addCaps m triangleIndices
        = Some (if vertices m = [] \<or> boundaryEdgesOf m triangleIndices = [] then ts
                else ts @ concat capss)"
proof -
  let ?bes = "boundaryEdgesOf m triangleIndices"
  obtain used calls where tr: "traceAll ?bes (buildNextMap ?bes []) {} [] = (used, calls)"
    by (cases "traceAll ?bes (buildNextMap ?bes []) {} []")
  from traceAll_used_boundary [OF tr] have u: "used = edgePairs ?bes" .
  from traceAll_covered [OF tr] have cov: "edgePairs ?bes \<subseteq> covered calls" .
  from subsetTriangles_char [of m triangleIndices "[]"] obtain ts where
    st: "subsetTriangles m triangleIndices [] = Some ts" by auto
  have "\<forall>c \<in> set calls. snd c < length (indexedTriangles m)"
    using traceAll_calls_valid [OF tr] by blast
  from capLoops_char [OF this, of ts] obtain capss where
    cl: "capLoops m calls ts = Some (ts @ concat capss)"
    and l2: "list_all2 (\<lambda>c caps. capOneLoop m (fst c) (snd c) = Some caps) calls capss" by blast
  have two: "\<forall>p q t. capOneLoop m [p, q] t = Some []" by (simp add: capOneLoop_def)
  have ac: "addCaps m triangleIndices
            = Some (if vertices m = [] \<or> ?bes = [] then ts else ts @ concat capss)"
  proof (cases "vertices m = [] \<or> ?bes = []")
    case True
    thus ?thesis by (auto simp: addCaps_def st Let_def)
  next
    case False
    thus ?thesis using tr cl by (simp add: addCaps_def st Let_def del: traceAll.simps)
  qed
  from tr [unfolded u] cov st l2 two ac show ?thesis by blast
qed

text \<open>
  Two triangles in the plane \<open>z = 0\<close> that run along their common edge in the same direction:
  the boundary of the pair is two open paths from vertex 0 to vertex 2.
\<close>

definition openPair :: "real StlReader" where
  "openPair = \<lparr> triangles = [],
                vertices = [\<lparr>vx = 0, vy = 0, vz = 0\<rparr>, \<lparr>vx = 1, vy = 0, vz = 0\<rparr>,
                            \<lparr>vx = 0, vy = 1, vz = 0\<rparr>, \<lparr>vx = - 1, vy = 0, vz = 0\<rparr>],
                indexedTriangles = [\<lparr>i0 = 0, i1 = 1, i2 = 2\<rparr>, \<lparr>i0 = 2, i1 = 0, i2 = 3\<rparr>],
                originalFacetNormals = [] \<rparr>"

lemma vlen_planar: "vlen \<lparr>vx = 0, vy = 0, vz = z\<rparr> = \<bar>z\<bar>"
  by (simp add: vlen_def norm2_def)

lemma openPair_boundary:
  "boundaryEdgesOf openPair [0, 1] =
     [\<lparr>dfrom = 0, dto = 1, triIdx = 0\<rparr>, \<lparr>dfrom = 0, dto = 3, triIdx = 1\<rparr>,
      \<lparr>dfrom = 1, dto = 2, triIdx = 0\<rparr>, \<lparr>dfrom = 3, dto = 2, triIdx = 1\<rparr>]"
  by (simp add: boundaryEdgesOf_def openPair_def pushEdge_def edgeKey_def Let_def)

lemma openPair_nextMap:
  "buildNextMap (boundaryEdgesOf openPair [0, 1]) [] =
     [(0, [(1, 0), (3, 1)]), (1, [(2, 0)]), (3, [(2, 1)])]"
  unfolding openPair_boundary by simp

lemma openPair_trace:
  "snd (traceAll (boundaryEdgesOf openPair [0, 1])
          (buildNextMap (boundaryEdgesOf openPair [0, 1]) []) {} [])
   = [([0, 1, 2], 0), ([0, 3, 2], 1)]"
  unfolding openPair_nextMap unfolding openPair_boundary
  by (simp add: Let_def)

lemma openPair_tri:
  "getTriangle openPair 0 = Some \<lparr> normal = \<lparr>vx = 0, vy = 0, vz = 1\<rparr>,
       v0 = \<lparr>vx = 0, vy = 0, vz = 0\<rparr>, v1 = \<lparr>vx = 1, vy = 0, vz = 0\<rparr>, v2 = \<lparr>vx = 0, vy = 1, vz = 0\<rparr> \<rparr>"
  "getTriangle openPair (Suc 0) = Some \<lparr> normal = \<lparr>vx = 0, vy = 0, vz = - 1\<rparr>,
       v0 = \<lparr>vx = 0, vy = 1, vz = 0\<rparr>, v1 = \<lparr>vx = 0, vy = 0, vz = 0\<rparr>, v2 = \<lparr>vx = - 1, vy = 0, vz = 0\<rparr> \<rparr>"
  by (simp_all add: getTriangle_def openPair_def cross3_def vlen_planar vscale_def Let_def)

lemma openPair_caps0:
  "capOneLoop openPair [0, 1, 2] 0 =
     Some [\<lparr> normal = \<lparr>vx = 0, vy = 0, vz = 1\<rparr>, v0 = \<lparr>vx = 1 / 3, vy = 1 / 3, vz = 0\<rparr>,
              v1 = \<lparr>vx = 0, vy = 0, vz = 0\<rparr>, v2 = \<lparr>vx = 1, vy = 0, vz = 0\<rparr> \<rparr>,
           \<lparr> normal = \<lparr>vx = 0, vy = 0, vz = 1\<rparr>, v0 = \<lparr>vx = 1 / 3, vy = 1 / 3, vz = 0\<rparr>,
              v1 = \<lparr>vx = 1, vy = 0, vz = 0\<rparr>, v2 = \<lparr>vx = 0, vy = 1, vz = 0\<rparr> \<rparr>,
           \<lparr> normal = \<lparr>vx = 0, vy = 0, vz = 1\<rparr>, v0 = \<lparr>vx = 1 / 3, vy = 1 / 3, vz = 0\<rparr>,
              v1 = \<lparr>vx = 0, vy = 1, vz = 0\<rparr>, v2 = \<lparr>vx = 0, vy = 0, vz = 0\<rparr> \<rparr>]"
  unfolding capOneLoop_def openPair_tri
  by (simp add: openPair_def loopCentroid_def capEdge_def cross3_def vlen_planar vscale_def
      vdot_def vneg_def Let_def)

lemma openPair_caps1:
  "capOneLoop openPair [0, 3, 2] (Suc 0) =
     Some [\<lparr> normal = \<lparr>vx = 0, vy = 0, vz = - 1\<rparr>, v0 = \<lparr>vx = - 1 / 3, vy = 1 / 3, vz = 0\<rparr>,
              v1 = \<lparr>vx = 0, vy = 0, vz = 0\<rparr>, v2 = \<lparr>vx = - 1, vy = 0, vz = 0\<rparr> \<rparr>,
           \<lparr> normal = \<lparr>vx = 0, vy = 0, vz = - 1\<rparr>, v0 = \<lparr>vx = - 1 / 3, vy = 1 / 3, vz = 0\<rparr>,
              v1 = \<lparr>vx = - 1, vy = 0, vz = 0\<rparr>, v2 = \<lparr>vx = 0, vy = 1, vz = 0\<rparr> \<rparr>,
           \<lparr> normal = \<lparr>vx = 0, vy = 0, vz = - 1\<rparr>, v0 = \<lparr>vx = - 1 / 3, vy = 1 / 3, vz = 0\<rparr>,
              v1 = \<lparr>vx = 0, vy = 1, vz = 0\<rparr>, v2 = \<lparr>vx = 0, vy = 0, vz = 0\<rparr> \<rparr>]"
  unfolding capOneLoop_def openPair_tri
  by (simp add: openPair_def loopCentroid_def capEdge_def cross3_def vlen_planar vscale_def
      vdot_def vneg_def Let_def)

lemma openPair_facts:
  "vertices openPair \<noteq> []" "length (indexedTriangles openPair) = 2"
  by (simp_all add: openPair_def)

lemma openPair_subset:
  "subsetTriangles openPair [0, 1] [] =
     Some [\<lparr> normal = \<lparr>vx = 0, vy = 0, vz = 1\<rparr>,
              v0 = \<lparr>vx = 0, vy = 0, vz = 0\<rparr>, v1 = \<lparr>vx = 1, vy = 0, vz = 0\<rparr>, v2 = \<lparr>vx = 0, vy = 1, vz = 0\<rparr> \<rparr>,
           \<lparr> normal = \<lparr>vx = 0, vy = 0, vz = - 1\<rparr>,
              v0 = \<lparr>vx = 0, vy = 1, vz = 0\<rparr>, v1 = \<lparr>vx = 0, vy = 0, vz = 0\<rparr>, v2 = \<lparr>vx = - 1, vy = 0, vz = 0\<rparr> \<rparr>]"
  by (simp add: openPair_facts openPair_tri)

text \<open>
  Claim C2, as stated, fails on \<open>openPair\<close>. Both traces end at vertex 2, which has no
  successor, and both open paths are capped like closed loops: the third cap of each lies
  on the pair 2 \<rightarrow> 0, which is no boundary edge.
\<close>

theorem dead_end_path_is_capped:
  "boundaryEdgesOf openPair [0, 1] =
     [\<lparr>dfrom = 0, dto = 1, triIdx = 0\<rparr>, \<lparr>dfrom = 0, dto = 3, triIdx = 1\<rparr>,
      \<lparr>dfrom = 1, dto = 2, triIdx = 0\<rparr>, \<lparr>dfrom = 3, dto = 2, triIdx = 1\<rparr>]
   \<and> omap_get 2 [] (buildNextMap (boundaryEdgesOf openPair [0, 1]) []) = []
   \<and> snd (traceAll (boundaryEdgesOf openPair [0, 1])
             (buildNextMap (boundaryEdgesOf openPair [0, 1]) []) {} [])
       = [([0, 1, 2], 0), ([0, 3, 2], 1)]
   \<and> (2, 0) \<notin> edgePairs (boundaryEdgesOf openPair [0, 1])
   \<and> addCaps openPair [0, 1] =
       Some [\<lparr> normal = \<lparr>vx = 0, vy = 0, vz = 1\<rparr>,
                v0 = \<lparr>vx = 0, vy = 0, vz = 0\<rparr>, v1 = \<lparr>vx = 1, vy = 0, vz = 0\<rparr>, v2 = \<lparr>vx = 0, vy = 1, vz = 0\<rparr> \<rparr>,
             \<lparr> normal = \<lparr>vx = 0, vy = 0, vz = - 1\<rparr>,
                v0 = \<lparr>vx = 0, vy = 1, vz = 0\<rparr>, v1 = \<lparr>vx = 0, vy = 0, vz = 0\<rparr>, v2 = \<lparr>vx = - 1, vy = 0, vz = 0\<rparr> \<rparr>,
             \<lparr> normal = \<lparr>vx = 0, vy = 0, vz = 1\<rparr>, v0 = \<lparr>vx = 1 / 3, vy = 1 / 3, vz = 0\<rparr>,
                v1 = \<lparr>vx = 0, vy = 0, vz = 0\<rparr>, v2 = \<lparr>vx = 1, vy = 0, vz = 0\<rparr> \<rparr>,
             \<lparr> normal = \<lparr>vx = 0, vy = 0, vz = 1\<rparr>, v0 = \<lparr>vx = 1 / 3, vy = 1 / 3, vz = 0\<rparr>,
                v1 = \<lparr>vx = 1, vy = 0, vz = 0\<rparr>, v2 = \<lparr>vx = 0, vy = 1, vz = 0\<rparr> \<rparr>,
             \<lparr> normal = \<lparr>vx = 0, vy = 0, vz = 1\<rparr>, v0 = \<lparr>vx = 1 / 3, vy = 1 / 3, vz = 0\<rparr>,
                v1 = \<lparr>vx = 0, vy = 1, vz = 0\<rparr>, v2 = \<lparr>vx = 0, vy = 0, vz = 0\<rparr> \<rparr>,
             \<lparr> normal = \<lparr>vx = 0, vy = 0, vz = - 1\<rparr>, v0 = \<lparr>vx = - 1 / 3, vy = 1 / 3, vz = 0\<rparr>,
                v1 = \<lparr>vx = 0, vy = 0, vz = 0\<rparr>, v2 = \<lparr>vx = - 1, vy = 0, vz = 0\<rparr> \<rparr>,
             \<lparr> normal = \<lparr>vx = 0, vy = 0, vz = - 1\<rparr>, v0 = \<lparr>vx = - 1 / 3, vy = 1 / 3, vz = 0\<rparr>,
                v1 = \<lparr>vx = - 1, vy = 0, vz = 0\<rparr>, v2 = \<lparr>vx = 0, vy = 1, vz = 0\<rparr> \<rparr>,
             \<lparr> normal = \<lparr>vx = 0, vy = 0, vz = - 1\<rparr>, v0 = \<lparr>vx = - 1 / 3, vy = 1 / 3, vz = 0\<rparr>,
                v1 = \<lparr>vx = 0, vy = 1, vz = 0\<rparr>, v2 = \<lparr>vx = 0, vy = 0, vz = 0\<rparr> \<rparr>]"
proof -
  let ?bes = "boundaryEdgesOf openPair [0, 1]"
  have a: "omap_get 2 [] (buildNextMap ?bes []) = []"
    unfolding openPair_nextMap by simp
  have b: "(2, 0) \<notin> edgePairs ?bes"
    unfolding openPair_boundary by (simp add: edgePairs_def)
  have ne: "?bes \<noteq> []" unfolding openPair_boundary by simp
  have cl: "capLoops openPair [([0, 1, 2], 0), ([0, 3, 2], 1)] ts
            = Some (ts @ the (capOneLoop openPair [0, 1, 2] 0)
                       @ the (capOneLoop openPair [0, 3, 2] (Suc 0)))" for ts
    by (simp add: openPair_caps0 [unfolded One_nat_def] openPair_caps1)
  have "addCaps openPair [0, 1]
        = capLoops openPair (snd (traceAll ?bes (buildNextMap ?bes []) {} []))
            (the (subsetTriangles openPair [0, 1] []))"
    unfolding addCaps_def openPair_subset using ne openPair_facts(1)
    by (simp add: Let_def split_def del: traceAll.simps)
  hence c: "addCaps openPair [0, 1]
            = Some (the (subsetTriangles openPair [0, 1] [])
                    @ the (capOneLoop openPair [0, 1, 2] 0)
                    @ the (capOneLoop openPair [0, 3, 2] (Suc 0)))"
    unfolding openPair_trace cl .
  show ?thesis
    using openPair_boundary a openPair_trace b c
    unfolding openPair_subset openPair_caps0 openPair_caps1 by simp
qed

section \<open>The orientation of the caps\<close>

















section \<open>A subset of one triangle\<close>



lemma collect3:
  assumes "k1 < k2" and "k2 < k3"
  shows "collectBoundary [(k1, [e1]), (k2, [e2]), (k3, [e3])] = [e1, e2, e3]"
  by simp





lemma okeys_buildNextMap: "okeys nm \<Longrightarrow> okeys (buildNextMap es nm)"
  by (induction es arbitrary: nm) (simp_all add: okeys_omap_update)




subsection \<open>The three caps of one triangle\<close>












subsection \<open>The edges of the triangle with its three caps\<close>














end
